theory Spec2Isabelle
  imports Main
begin

unbundle bit_operations_syntax

section \<open>The colour quantizer\<close>

text \<open>
  A pixel sample is a Python tuple of integers: three components for an RGB image, four
  for RGBA.  The palette is the module constant \<open>PICO8_PALETTE\<close>, identical in the three
  scripts.
\<close>

type_synonym pixel = "int list"

definition PICO8_PALETTE :: "pixel list" where
  "PICO8_PALETTE =
    [[0, 0, 0], [29, 43, 83], [126, 37, 83], [0, 135, 81],
     [171, 82, 54], [95, 87, 79], [194, 195, 199], [255, 241, 232],
     [255, 0, 77], [255, 163, 0], [255, 236, 39], [0, 228, 54],
     [41, 173, 255], [131, 118, 156], [255, 119, 168], [255, 204, 170]]"

text \<open>\<open>sum((a - b) ** 2 for a, b in zip(rgb, palette_color))\<close>\<close>

definition distance :: "pixel \<Rightarrow> pixel \<Rightarrow> int" where
  "distance rgb palette_color = sum_list (map (\<lambda>(a, b). (a - b)\<^sup>2) (zip rgb palette_color))"

text \<open>
  \<open>min_distance\<close> starts as \<open>float('inf')\<close>: \<open>None\<close> stands for infinity, and every
  integer is below it.
\<close>

fun below :: "int \<Rightarrow> int option \<Rightarrow> bool" where
  "below d None = True"
| "below d (Some m) = (d < m)"

text \<open>One iteration of the loop over \<open>enumerate(PICO8_PALETTE)\<close>; the state is
  \<open>(min_distance, closest_color)\<close>.\<close>

fun closest_step :: "pixel \<Rightarrow> nat \<times> pixel \<Rightarrow> int option \<times> nat \<Rightarrow> int option \<times> nat" where
  "closest_step rgb (i, palette_color) (min_distance, closest_color) =
     (let d = distance rgb palette_color
      in if below d min_distance then (Some d, i) else (min_distance, closest_color))"

definition closest_loop :: "pixel \<Rightarrow> (nat \<times> pixel) list \<Rightarrow> int option \<times> nat" where
  "closest_loop rgb entries = fold (closest_step rgb) entries (None, 0)"

text \<open>\<open>rgb_to_pico8_color\<close> of sprite_extractor.py.\<close>

definition rgb_to_pico8_color :: "pixel \<Rightarrow> nat" where
  "rgb_to_pico8_color rgb = snd (closest_loop rgb (enumerate 0 PICO8_PALETTE))"

text \<open>\<open>find_closest_pico8_color\<close> of png_to_pico8.py and png_extract_all_sprites.py: the
  same loop behind the test for a transparent RGBA sample.\<close>

definition find_closest_pico8_color :: "pixel \<Rightarrow> nat" where
  "find_closest_pico8_color rgb =
     (if length rgb = 4 then
        (if rgb ! 3 = 0 then 0
         else snd (closest_loop (take 3 rgb) (enumerate 0 PICO8_PALETTE)))
      else snd (closest_loop rgb (enumerate 0 PICO8_PALETTE)))"


text \<open>\<open>convert('RGB')\<close> of the imaging library, on one sample: a fourth component, the alpha
  value, is dropped.  sprite_extractor.py applies it to the whole image before it reads
  any pixel.\<close>

definition convert_RGB :: "pixel \<Rightarrow> pixel" where
  "convert_RGB p = take 3 p"

section \<open>Errors\<close>

text \<open>
  The exceptions the modelled code can raise by itself are Python's \<open>IndexError\<close>, from a
  subscript or pixel coordinate out of range, and \<open>ZeroDivisionError\<close>.  A computation
  that may raise returns \<open>error + 'a\<close>.
\<close>

datatype error = IndexError | ZeroDivisionError

definition bind_err :: "error + 'a \<Rightarrow> ('a \<Rightarrow> error + 'b) \<Rightarrow> error + 'b" where
  "bind_err m f = (case m of Inl e \<Rightarrow> Inl e | Inr v \<Rightarrow> f v)"

text \<open>A loop that builds a list and stops at the first exception.\<close>

fun map_err :: "('a \<Rightarrow> error + 'b) \<Rightarrow> 'a list \<Rightarrow> error + 'b list" where
  "map_err f [] = Inr []"
| "map_err f (x # xs) = bind_err (f x) (\<lambda>y. bind_err (map_err f xs) (\<lambda>ys. Inr (y # ys)))"

text \<open>A loop that updates a state and stops at the first exception.\<close>

fun fold_err :: "('a \<Rightarrow> 's \<Rightarrow> error + 's) \<Rightarrow> 'a list \<Rightarrow> 's \<Rightarrow> error + 's" where
  "fold_err f [] s = Inr s"
| "fold_err f (x # xs) s = bind_err (f x s) (fold_err f xs)"

text \<open>\<open>a // b\<close> on non-negative integers.\<close>

definition floordiv :: "nat \<Rightarrow> nat \<Rightarrow> error + nat" where
  "floordiv a b = (if b = 0 then Inl ZeroDivisionError else Inr (a div b))"

text \<open>\<open>xs[i]\<close> for a non-negative index.\<close>

definition getitem :: "'a list \<Rightarrow> nat \<Rightarrow> error + 'a" where
  "getitem xs i = (if i < length xs then Inr (xs ! i) else Inl IndexError)"

section \<open>The sheet encoders\<close>

text \<open>A sheet, and the pixel data of a sprite, is a list of rows of palette indices.\<close>

type_synonym sheet = "nat list list"

definition hex_digit :: "nat \<Rightarrow> char" where
  "hex_digit d = ''0123456789abcdef'' ! d"

text \<open>The lowercase hexadecimal numeral of a non-negative integer: \<open>hex(n)[2:]\<close> and
  \<open>format(n, 'x')\<close>.\<close>

fun hex_str :: "nat \<Rightarrow> string" where
  "hex_str n = (if n < 16 then [hex_digit n] else hex_str (n div 16) @ [hex_digit (n mod 16)])"

declare hex_str.simps [simp del]

text \<open>\<open>f"{hex_byte:02x}"\<close>: the numeral, padded with zeros on the left to two characters.\<close>

definition fmt_02x :: "nat \<Rightarrow> string" where
  "fmt_02x n = replicate (2 - length (hex_str n)) (CHR ''0'') @ hex_str n"

text \<open>
  \<open>save_pico8_sprite_data\<close> of sprite_extractor.py.  The body of the inner loop, for one
  \<open>x\<close> of \<open>range(0, 128, 2)\<close>: two pixels are packed into a byte and the byte is formatted.
\<close>

definition hex_byte_at :: "sheet \<Rightarrow> nat \<Rightarrow> nat \<Rightarrow> error + string" where
  "hex_byte_at sprite_sheet y x =
     bind_err (getitem sprite_sheet y) (\<lambda>row1.
     bind_err (getitem row1 x) (\<lambda>pixel1.
     bind_err (if x + 1 < 128
               then bind_err (getitem sprite_sheet y) (\<lambda>row2. getitem row2 (x + 1))
               else Inr 0) (\<lambda>pixel2.
     Inr (fmt_02x (push_bit 4 pixel1 OR pixel2)))))"

definition gfx_line :: "sheet \<Rightarrow> nat \<Rightarrow> error + string" where
  "gfx_line sprite_sheet y =
     bind_err (map_err (hex_byte_at sprite_sheet y) (map (\<lambda>k. 2 * k) [0..<64]))
       (\<lambda>bytes. Inr (concat bytes))"

text \<open>The 128 lines written after the \<open>__gfx__\<close> header.\<close>

definition gfx_lines :: "sheet \<Rightarrow> error + string list" where
  "gfx_lines sprite_sheet = map_err (gfx_line sprite_sheet) [0..<128]"

text \<open>The file that is written, as the list of its lines.\<close>

definition save_pico8_sprite_data :: "sheet \<Rightarrow> error + string list" where
  "save_pico8_sprite_data sprite_sheet =
     bind_err (gfx_lines sprite_sheet) (\<lambda>ls.
       Inr ([''-- PICO-8 Sprite Data'', ''-- Generated by sprite_extractor.py'', '''', ''__gfx__''] @ ls))"

text \<open>\<open>sprite_to_hex_string\<close> of png_extract_all_sprites.py and png_to_pico8.py: one
  hexadecimal numeral per pixel, one line per row.\<close>

definition sprite_to_hex_string :: "nat list list \<Rightarrow> string list" where
  "sprite_to_hex_string sprite_data = map (\<lambda>row. concat (map hex_str row)) sprite_data"

section \<open>Images and grid extraction\<close>

text \<open>
  A decoded image, as the imaging library hands it over: its size and the sample at every
  coordinate inside it.  Opening and decoding the file are outside the model.
\<close>

record image =
  width :: nat
  height :: nat
  pixel_at :: "nat \<Rightarrow> nat \<Rightarrow> pixel"

text \<open>\<open>img.getpixel((x, y))\<close> raises \<open>IndexError\<close> outside the image.\<close>

definition getpixel :: "image \<Rightarrow> nat \<times> nat \<Rightarrow> error + pixel" where
  "getpixel img xy =
     (case xy of (x, y) \<Rightarrow>
        if x < width img \<and> y < height img then Inr (pixel_at img x y) else Inl IndexError)"

text \<open>\<open>image.crop((left, upper, right, lower))\<close>: the part of the box that lies outside the
  image is black.\<close>

definition crop :: "image \<Rightarrow> nat \<times> nat \<times> nat \<times> nat \<Rightarrow> image" where
  "crop img box =
     (case box of (left, upper, right, lower) \<Rightarrow>
        \<lparr>width = right - left, height = lower - upper,
         pixel_at = (\<lambda>x y. if left + x < width img \<and> upper + y < height img
                             then pixel_at img (left + x) (upper + y) else [0, 0, 0])\<rparr>)"

text \<open>A sprite is the dictionary with the keys \<open>id\<close>, \<open>x\<close>, \<open>y\<close>, \<open>size\<close> and \<open>data\<close>.\<close>

record sprite =
  sp_id :: nat
  sp_x :: nat
  sp_y :: nat
  sp_size :: nat
  sp_data :: "nat list list"

text \<open>The loops over \<open>py\<close> and \<open>px\<close> of \<open>extract_sprites_from_png\<close>.\<close>

definition sprite_pixels :: "image \<Rightarrow> nat \<Rightarrow> error + nat list list" where
  "sprite_pixels sprite_img sprite_size =
     map_err (\<lambda>py.
       map_err (\<lambda>px. bind_err (getpixel sprite_img (px, py)) (\<lambda>rgb. Inr (rgb_to_pico8_color rgb)))
         [0..<sprite_size])
       [0..<sprite_size]"

text \<open>The body of the loop over \<open>x\<close>, for the grid cell in row \<open>y\<close> and column \<open>x\<close>; the
  state is the list \<open>sprites\<close>.\<close>

definition extract_cell :: "image \<Rightarrow> nat \<Rightarrow> nat \<times> nat \<Rightarrow> sprite list \<Rightarrow> error + sprite list" where
  "extract_cell img sprite_size yx sprites =
     (case yx of (y, x) \<Rightarrow>
        let left = x * sprite_size;
            top' = y * sprite_size;
            right = left + sprite_size;
            bottom = top' + sprite_size;
            sprite_img = crop img (left, top', right, bottom)
        in bind_err (sprite_pixels sprite_img sprite_size) (\<lambda>sprite_data.
             Inr (sprites @ [\<lparr>sp_id = length sprites, sp_x = x, sp_y = y,
                                sp_size = sprite_size, sp_data = sprite_data\<rparr>])))"

text \<open>The body of the \<open>try\<close> block, after the image is opened and converted to RGB.\<close>

definition extract_body :: "image \<Rightarrow> nat \<Rightarrow> error + sprite list" where
  "extract_body img sprite_size =
     bind_err (floordiv (width img) sprite_size) (\<lambda>sprites_x.
     bind_err (floordiv (height img) sprite_size) (\<lambda>sprites_y.
       fold_err (extract_cell img sprite_size)
         (List.product [0..<sprites_y] [0..<sprites_x]) []))"

text \<open>\<open>extract_sprites_from_png\<close> of sprite_extractor.py: any exception gives the empty
  list.\<close>

definition extract_sprites_from_png :: "image \<Rightarrow> nat \<Rightarrow> sprite list" where
  "extract_sprites_from_png img sprite_size =
     (case extract_body img sprite_size of Inl e \<Rightarrow> [] | Inr sprites \<Rightarrow> sprites)"

text \<open>
  What extraction is expected to yield for the grid cell in column \<open>x\<close> and row \<open>y\<close>: the
  quantized pixels of the cell, and the sprite with number \<open>k\<close> that holds them.  These
  two definitions serve the proofs; the code is \<open>extract_sprites_from_png\<close> above.
\<close>

definition cell_data :: "image \<Rightarrow> nat \<Rightarrow> nat \<Rightarrow> nat \<Rightarrow> nat list list" where
  "cell_data img S x y =
     map (\<lambda>py. map (\<lambda>px. rgb_to_pico8_color (pixel_at img (x * S + px) (y * S + py))) [0..<S]) [0..<S]"

definition cell_sprite :: "image \<Rightarrow> nat \<Rightarrow> nat \<Rightarrow> nat \<times> nat \<Rightarrow> sprite" where
  "cell_sprite img S k yx =
     \<lparr>sp_id = k, sp_x = snd yx, sp_y = fst yx, sp_size = S, sp_data = cell_data img S (snd yx) (fst yx)\<rparr>"

section \<open>The sheet packer\<close>

text \<open>
  \<open>sprites_to_pico8_format\<close> of sprite_extractor.py.  One assignment
  \<open>sprite_sheet[Y][X] = sprite['data'][src_y][src_x]\<close> is described by its target and its
  source coordinates; either subscript may raise \<open>IndexError\<close>.
\<close>

type_synonym copy = "(nat \<times> nat) \<times> (nat \<times> nat)"

definition assign :: "nat list list \<Rightarrow> copy \<Rightarrow> sheet \<Rightarrow> error + sheet" where
  "assign data c sprite_sheet =
     (case c of ((Y, X), (src_y, src_x)) \<Rightarrow>
        bind_err (getitem data src_y) (\<lambda>src_row.
        bind_err (getitem src_row src_x) (\<lambda>v.
        bind_err (getitem sprite_sheet Y) (\<lambda>row.
          if X < length row then Inr (sprite_sheet[Y := row[X := v]]) else Inl IndexError))))"

text \<open>The assignments of the 8x8 branch, in the order of its loops over \<open>y\<close> and \<open>x\<close>.\<close>

definition copies8 :: "nat \<Rightarrow> nat \<Rightarrow> copy list" where
  "copies8 sheet_x sheet_y =
     concat (map (\<lambda>y. map (\<lambda>x. ((sheet_y + y, sheet_x + x), (y, x))) [0..<8]) [0..<8])"

text \<open>The assignments of the 16x16 branch (\<open>n = 2\<close>) and of the 32x32 branch (\<open>n = 4\<close>), in
  the order of their loops over \<open>chunk_y\<close>, \<open>chunk_x\<close>, \<open>y\<close> and \<open>x\<close>.\<close>

definition copies_chunks :: "nat \<Rightarrow> nat \<Rightarrow> nat \<Rightarrow> copy list" where
  "copies_chunks n sheet_x sheet_y =
     concat (map (\<lambda>chunk_y. concat (map (\<lambda>chunk_x.
       let chunk_sheet_x = sheet_x + chunk_x * 8;
           chunk_sheet_y = sheet_y + chunk_y * 8
       in concat (map (\<lambda>y. map (\<lambda>x.
            let src_y = chunk_y * 8 + y;
                src_x = chunk_x * 8 + x
            in ((chunk_sheet_y + y, chunk_sheet_x + x), (src_y, src_x))) [0..<8]) [0..<8]))
       [0..<n])) [0..<n])"

definition sheet_size :: nat where
  "sheet_size = 128"

definition grid_size :: nat where
  "grid_size = sheet_size div 8"

text \<open>\<open>if (sprite_index % grid_size) == 0: sprite_index += grid_size\<close>\<close>

definition skip_row :: "nat \<Rightarrow> nat" where
  "skip_row sprite_index =
     (if sprite_index mod grid_size = 0 then sprite_index + grid_size else sprite_index)"

text \<open>The cursor after a 16x16 sprite is placed, and after a 32x32 sprite is placed (the
  row test is run three times there).\<close>

definition advance16 :: "nat \<Rightarrow> nat" where
  "advance16 sprite_index = skip_row (sprite_index + 2)"

definition advance32 :: "nat \<Rightarrow> nat" where
  "advance32 sprite_index = skip_row (skip_row (skip_row (sprite_index + 4)))"

text \<open>
  The loop over the sprites.  Besides the cursor and the sheet, the model carries the
  list \<open>placed\<close> of the placements made so far: the cursor at which a sprite was copied
  into the sheet, and the sprite.  The list is an observation of the run; it does not
  influence it.  \<open>break\<close> ends the loop, \<open>continue\<close> goes on with the cursor unchanged.
\<close>

type_synonym placement = "nat \<times> sprite"

fun pack_loop :: "sprite list \<Rightarrow> nat \<Rightarrow> sheet \<Rightarrow> placement list \<Rightarrow> error + (sheet \<times> placement list)" where
  "pack_loop [] sprite_index sprite_sheet placed = Inr (sprite_sheet, placed)"
| "pack_loop (sprite # rest) sprite_index sprite_sheet placed =
     (if sprite_index \<ge> grid_size * grid_size then Inr (sprite_sheet, placed)
      else
        let sheet_x = (sprite_index mod grid_size) * 8;
            sheet_y = (sprite_index div grid_size) * 8
        in
          if sp_size sprite = 8 then
            (case fold_err (assign (sp_data sprite)) (copies8 sheet_x sheet_y) sprite_sheet of
               Inl e \<Rightarrow> Inl e
             | Inr sh \<Rightarrow> pack_loop rest (sprite_index + 1) sh (placed @ [(sprite_index, sprite)]))
          else if sp_size sprite = 16 then
            (if sprite_index mod grid_size > grid_size - 2 \<or> sprite_index div grid_size > grid_size - 2
             then pack_loop rest sprite_index sprite_sheet placed
             else
               (case fold_err (assign (sp_data sprite)) (copies_chunks 2 sheet_x sheet_y) sprite_sheet of
                  Inl e \<Rightarrow> Inl e
                | Inr sh \<Rightarrow> pack_loop rest (advance16 sprite_index) sh (placed @ [(sprite_index, sprite)])))
          else if sp_size sprite = 32 then
            (if sprite_index mod grid_size > grid_size - 4 \<or> sprite_index div grid_size > grid_size - 4
             then pack_loop rest sprite_index sprite_sheet placed
             else
               (case fold_err (assign (sp_data sprite)) (copies_chunks 4 sheet_x sheet_y) sprite_sheet of
                  Inl e \<Rightarrow> Inl e
                | Inr sh \<Rightarrow> pack_loop rest (advance32 sprite_index) sh (placed @ [(sprite_index, sprite)])))
          else pack_loop rest sprite_index sprite_sheet placed)"

text \<open>The whole run, from the empty sheet and cursor 0.\<close>

definition pack :: "sprite list \<Rightarrow> error + (sheet \<times> placement list)" where
  "pack sprites = pack_loop sprites 0 (replicate sheet_size (replicate sheet_size 0)) []"

text \<open>The function returns the sheet; its parameter \<open>sprite_size\<close> is not used.\<close>

definition sprites_to_pico8_format :: "sprite list \<Rightarrow> nat \<Rightarrow> error + sheet" where
  "sprites_to_pico8_format sprites sprite_size =
     (case pack sprites of Inl e \<Rightarrow> Inl e | Inr (sprite_sheet, placed) \<Rightarrow> Inr sprite_sheet)"

text \<open>
  The assignments a placement executes, and the 8x8 cells of the sheet, as
  \<open>(cellX, cellY)\<close>, that they write to.
\<close>

definition copies_of :: "placement \<Rightarrow> copy list" where
  "copies_of p =
     (case p of (sprite_index, sprite) \<Rightarrow>
        let sheet_x = (sprite_index mod grid_size) * 8;
            sheet_y = (sprite_index div grid_size) * 8
        in if sp_size sprite = 8 then copies8 sheet_x sheet_y
           else if sp_size sprite = 16 then copies_chunks 2 sheet_x sheet_y
           else if sp_size sprite = 32 then copies_chunks 4 sheet_x sheet_y
           else [])"

definition cell_of_copy :: "copy \<Rightarrow> nat \<times> nat" where
  "cell_of_copy c = (case c of ((Y, X), src) \<Rightarrow> (X div 8, Y div 8))"

definition dest_cells :: "placement \<Rightarrow> (nat \<times> nat) set" where
  "dest_cells p = cell_of_copy ` set (copies_of p)"

text \<open>
  The remaining definitions of this section serve the proofs.  A sheet is well-shaped
  when it is 128 by 128; a sprite is well-formed when its data have at least \<open>size\<close> rows
  of at least \<open>size\<close> entries each, so that no subscript of the packer is out of range.
\<close>

definition sheet_ok :: "sheet \<Rightarrow> bool" where
  "sheet_ok sh \<longleftrightarrow> length sh = 128 \<and> list_all (\<lambda>row. length row = 128) sh"

definition well_formed :: "sprite \<Rightarrow> bool" where
  "well_formed s \<longleftrightarrow>
     sp_size s \<le> length (sp_data s) \<and>
     list_all (\<lambda>row. sp_size s \<le> length row) (take (sp_size s) (sp_data s))"

text \<open>An assignment and a placement as plain list updates, for when nothing is out of
  range.\<close>

definition put :: "nat list list \<Rightarrow> copy \<Rightarrow> sheet \<Rightarrow> sheet" where
  "put data c sh = (case c of ((Y, X), (src_y, src_x)) \<Rightarrow> sh[Y := (sh ! Y)[X := data ! src_y ! src_x]])"

definition stamp :: "placement \<Rightarrow> sheet \<Rightarrow> sheet" where
  "stamp p sh = fold (put (sp_data (snd p))) (copies_of p) sh"

text \<open>The placements of the loop, computed from the sizes of the sprites alone.\<close>

fun placements :: "sprite list \<Rightarrow> nat \<Rightarrow> placement list" where
  "placements [] i = []"
| "placements (s # ss) i =
     (if 256 \<le> i then []
      else if sp_size s = 8 then (i, s) # placements ss (i + 1)
      else if sp_size s = 16 then
        (if 14 < i mod 16 \<or> 14 < i div 16 then placements ss i
         else (i, s) # placements ss (advance16 i))
      else if sp_size s = 32 then
        (if 12 < i mod 16 \<or> 12 < i div 16 then placements ss i
         else (i, s) # placements ss (advance32 i))
      else placements ss i)"

text \<open>A placement fits when its block of cells lies inside the 16 by 16 grid.\<close>

definition fits :: "placement \<Rightarrow> bool" where
  "fits p \<longleftrightarrow>
     (case p of (i, s) \<Rightarrow>
        (sp_size s = 8 \<or> sp_size s = 16 \<or> sp_size s = 32) \<and>
        i mod 16 + sp_size s div 8 \<le> 16 \<and> i div 16 + sp_size s div 8 \<le> 16)"

text \<open>
  For the proofs about sprites of one size: a cursor is aligned for the footprint \<open>F\<close>
  when its column and its row are multiples of \<open>F\<close>, and \<open>next_cursor F i\<close> is the cursor
  after a sprite of footprint \<open>F\<close> is placed at \<open>i\<close>.
\<close>

definition aligned :: "nat \<Rightarrow> nat \<Rightarrow> bool" where
  "aligned F i \<longleftrightarrow> F dvd i mod 16 \<and> F dvd i div 16"

definition next_cursor :: "nat \<Rightarrow> nat \<Rightarrow> nat" where
  "next_cursor F i = (if (i + F) mod 16 = 0 then (i div 16 + F) * 16 else i + F)"

text \<open>A sprite of one colour, for examples.\<close>

definition solid :: "nat \<Rightarrow> nat \<Rightarrow> sprite" where
  "solid S v = \<lparr>sp_id = 0, sp_x = 0, sp_y = 0, sp_size = S, sp_data = replicate S (replicate S v)\<rparr>"

text \<open>8x8 sprites that differ from one another, for examples: sprite number \<open>k\<close> is painted
  in the colour \<open>k mod 15 + 1\<close>.\<close>

definition tile :: "nat \<Rightarrow> sprite" where
  "tile k = \<lparr>sp_id = k, sp_x = k mod 16, sp_y = k div 16, sp_size = 8,
              sp_data = replicate 8 (replicate 8 (k mod 15 + 1))\<rparr>"

definition tiles :: "nat \<Rightarrow> sprite list" where
  "tiles n = map tile [0..<n]"

section \<open>The whole run\<close>

text \<open>
  \<open>main\<close> of sprite_extractor.py between its arguments and the file it writes: extraction,
  packing, encoding.  The result is \<open>None\<close> when no sprite was extracted (\<open>main\<close> returns 1
  and writes nothing), and else the lines of the file.
\<close>

definition main_p8 :: "image \<Rightarrow> nat \<Rightarrow> error + string list option" where
  "main_p8 img sprite_size =
     (let sprites = extract_sprites_from_png img sprite_size
      in if sprites = [] then Inr None
         else bind_err (sprites_to_pico8_format sprites sprite_size) (\<lambda>sprite_sheet.
              bind_err (save_pico8_sprite_data sprite_sheet) (\<lambda>ls. Inr (Some ls))))"

text \<open>A 16x16 image of the palette colour 8, and the sheet with that colour in its top
  left 16x16 pixels and 0 elsewhere.\<close>

definition red16 :: image where
  "red16 = \<lparr>width = 16, height = 16, pixel_at = (\<lambda>x y. [255, 0, 77])\<rparr>"

definition red_sheet :: sheet where
  "red_sheet = replicate 16 (replicate 16 8 @ replicate 112 0) @ replicate 112 (replicate 128 0)"

text \<open>The 8x8 cells of a sheet, as \<open>(cellX, cellY)\<close>, whose 64 pixels are all 0.\<close>

definition cell_blank :: "sheet \<Rightarrow> nat \<times> nat \<Rightarrow> bool" where
  "cell_blank sh c =
     (case c of (cx, cy) \<Rightarrow>
        list_all (\<lambda>y. list_all (\<lambda>x. sh ! (cy * 8 + y) ! (cx * 8 + x) = 0) [0..<8]) [0..<8])"

definition blank_cells :: "sheet \<Rightarrow> (nat \<times> nat) list" where
  "blank_cells sh = filter (cell_blank sh) (List.product [0..<16] [0..<16])"

section \<open>The 16x16 converter\<close>

text \<open>
  \<open>convert_png_to_pico8\<close> of png_to_pico8.py, from the image as opened and converted to
  RGBA.  \<open>Image.resize\<close> belongs to the imaging library and is a parameter of the model; it
  is called with the size and the resampling filter.  The function prints to the
  console: the model returns the messages printed, in order, beside the result.  Any
  exception inside the \<open>try\<close> block is reported and gives \<open>None\<close>.
\<close>

datatype resample = NEAREST | BOX | BILINEAR | HAMMING | BICUBIC | LANCZOS

text \<open>\<open>Warning: Image is (w, h), resizing to 16x16\<close> and \<open>Error loading image: e\<close>\<close>

datatype message = Warning_resizing "nat \<times> nat" | Error_loading error

definition convert_png_to_pico8 ::
  "(image \<Rightarrow> nat \<times> nat \<Rightarrow> resample \<Rightarrow> image) \<Rightarrow> image
     \<Rightarrow> message list \<times> nat list list option" where
  "convert_png_to_pico8 resize img0 =
     (let (printed, img) =
            (if (width img0, height img0) \<noteq> (16, 16)
             then ([Warning_resizing (width img0, height img0)], resize img0 (16, 16) NEAREST)
             else ([], img0))
      in case map_err (\<lambda>y.
                map_err (\<lambda>x. bind_err (getpixel img (x, y)) (\<lambda>pixel. Inr (find_closest_pico8_color pixel)))
                  [0..<16])
              [0..<16] of
           Inl e \<Rightarrow> (printed @ [Error_loading e], None)
         | Inr pico8_data \<Rightarrow> (printed, Some pico8_data))"

text \<open>
  For the examples: one function that can stand for the parameter \<open>resize\<close>, and an RGBA
  image of 32 by 8 pixels, red and opaque on the left, transparent on the right.  The
  function samples by nearest neighbour, taking for the target pixel \<open>(x, y)\<close> the source
  sample under the centre of its area, \<open>floor((x + 1/2) * W / w)\<close>; it is not the
  library's code, and the theorem about the converter is about every \<open>resize\<close> that
  returns an image of the size it is asked for.
\<close>

definition sample_resize :: "image \<Rightarrow> nat \<times> nat \<Rightarrow> resample \<Rightarrow> image" where
  "sample_resize im wh f =
     \<lparr>width = fst wh, height = snd wh,
      pixel_at = (\<lambda>x y. pixel_at im ((2 * x + 1) * width im div (2 * fst wh))
                                    ((2 * y + 1) * height im div (2 * snd wh)))\<rparr>"

definition wide_image :: image where
  "wide_image = \<lparr>width = 32, height = 8,
                 pixel_at = (\<lambda>x y. if x < 16 then [255, 0, 77, 255] else [0, 0, 0, 0])\<rparr>"

section \<open>The producer for split 16x16 sprites\<close>

text \<open>
  \<open>generate_gfx_output\<close> of png_extract_all_sprites.py.  A sprite is the dictionary with
  the keys \<open>index\<close>, \<open>position\<close> and the four 8x8 quadrants.  The sheet is a list of 128
  rows of 16 strings, one string of 8 digits per cell and pixel row.
\<close>

record split_sprite =
  ss_index :: nat
  ss_position :: "nat \<times> nat"
  top_left :: "nat list list"
  top_right :: "nat list list"
  bottom_left :: "nat list list"
  bottom_right :: "nat list list"

text \<open>One assignment \<open>sprite_sheet[r][c] = line\<close>, as \<open>((r, c), line)\<close>.\<close>

type_synonym gfx_write = "(nat \<times> nat) \<times> string"

text \<open>
  The assignments of the loop
  \<open>for i, line in enumerate(hex): if row * 8 + i < 128: sprite_sheet[row * 8 + i][col] = line\<close>
  for the quadrant that goes to the slot \<open>sprite_id\<close>.  The guard keeps the row below 128
  and the column is below 16, so no subscript is out of range.
\<close>

definition part_writes :: "nat \<Rightarrow> string list \<Rightarrow> gfx_write list" where
  "part_writes sprite_id hex =
     (let row = sprite_id div 16;
          col = sprite_id mod 16
      in map (\<lambda>(i, line). ((row * 8 + i, col), line))
           (filter (\<lambda>(i, line). row * 8 + i < 128) (enumerate 0 hex)))"

text \<open>The assignments of one iteration of the loop over the sprites, in their order.\<close>

definition sprite_writes :: "split_sprite \<Rightarrow> gfx_write list" where
  "sprite_writes sprite =
     (let index = ss_index sprite;
          base_sprite = index * 2;
          tl_sprite_id = base_sprite;
          tr_sprite_id = base_sprite + 1;
          bl_sprite_id = base_sprite + 16;
          br_sprite_id = base_sprite + 17;
          tl_hex = sprite_to_hex_string (top_left sprite);
          tr_hex = sprite_to_hex_string (top_right sprite);
          bl_hex = sprite_to_hex_string (bottom_left sprite);
          br_hex = sprite_to_hex_string (bottom_right sprite)
      in part_writes tl_sprite_id tl_hex @ part_writes tr_sprite_id tr_hex
         @ part_writes bl_sprite_id bl_hex @ part_writes br_sprite_id br_hex)"

definition gfx_put :: "gfx_write \<Rightarrow> string list list \<Rightarrow> string list list" where
  "gfx_put w sprite_sheet =
     (case w of ((r, c), line) \<Rightarrow> sprite_sheet[r := (sprite_sheet ! r)[c := line]])"

text \<open>The text that is returned, as the list of its lines.\<close>

definition generate_gfx_output :: "split_sprite list \<Rightarrow> string list" where
  "generate_gfx_output sprites =
     (let sprite_sheet =
            fold (\<lambda>sprite sh. fold gfx_put (sprite_writes sprite) sh) sprites
              (replicate 128 (replicate 16 ''00000000''))
      in ''__gfx__'' # map concat sprite_sheet)"

text \<open>The cells of the sheet, as \<open>(cellX, cellY)\<close>, that the assignments of a sprite
  write to.\<close>

definition gfx_dest_cells :: "split_sprite \<Rightarrow> (nat \<times> nat) set" where
  "gfx_dest_cells sprite = (\<lambda>w. (snd (fst w), fst (fst w) div 8)) ` set (sprite_writes sprite)"

text \<open>A split sprite of one colour, for examples.\<close>

definition quad :: "nat \<Rightarrow> nat \<Rightarrow> split_sprite" where
  "quad N v =
     \<lparr>ss_index = N, ss_position = (N, 0),
      top_left = replicate 8 (replicate 8 v), top_right = replicate 8 (replicate 8 v),
      bottom_left = replicate 8 (replicate 8 v), bottom_right = replicate 8 (replicate 8 v)\<rparr>"

section \<open>Properties of the quantizer\<close>

lemma closest_loop_inv:
  "ps \<noteq> [] \<Longrightarrow> fold (closest_step rgb) (enumerate 0 ps) (None, 0) = (m, c) \<Longrightarrow>
     c < length ps \<and> m = Some (distance rgb (ps ! c)) \<and>
     (\<forall>j<length ps. distance rgb (ps ! c) \<le> distance rgb (ps ! j)) \<and>
     (\<forall>j<c. distance rgb (ps ! c) < distance rgb (ps ! j))"
proof (induction ps arbitrary: m c rule: rev_induct)
  case Nil
  then show ?case by simp
next
  case (snoc p ps)
  show ?case
  proof (cases "ps = []")
    case True
    with snoc.prems show ?thesis by (auto simp: Let_def)
  next
    case False
    obtain m0 c0 where st: "fold (closest_step rgb) (enumerate 0 ps) (None, 0) = (m0, c0)"
      by (cases "fold (closest_step rgb) (enumerate 0 ps) (None, 0)") auto
    from snoc.IH [OF False st] have
      c0: "c0 < length ps" and m0: "m0 = Some (distance rgb (ps ! c0))"
      and mn: "\<forall>j<length ps. distance rgb (ps ! c0) \<le> distance rgb (ps ! j)"
      and fs: "\<forall>j<c0. distance rgb (ps ! c0) < distance rgb (ps ! j)"
      by auto
    have step: "(m, c) = closest_step rgb (length ps, p) (m0, c0)"
      using snoc.prems(2) st by (simp add: enumerate_append_eq)
    show ?thesis
    proof (cases "distance rgb p < distance rgb (ps ! c0)")
      case True
      with step m0 have "c = length ps" "m = Some (distance rgb p)"
        by (simp_all add: Let_def)
      with True mn show ?thesis
        by (auto simp: nth_append less_Suc_eq)
    next
      case False
      with step m0 have "c = c0" "m = m0"
        by (simp_all add: Let_def)
      with False c0 m0 mn fs show ?thesis
        by (auto simp: nth_append less_Suc_eq)
    qed
  qed
qed

lemma length_PICO8_PALETTE: "length PICO8_PALETTE = 16"
  by (simp add: PICO8_PALETTE_def)

lemma closest_loop_palette:
  "snd (closest_loop rgb (enumerate 0 PICO8_PALETTE)) < 16 \<and>
   (\<forall>j<16. distance rgb (PICO8_PALETTE ! snd (closest_loop rgb (enumerate 0 PICO8_PALETTE)))
              \<le> distance rgb (PICO8_PALETTE ! j)) \<and>
   (\<forall>j<snd (closest_loop rgb (enumerate 0 PICO8_PALETTE)).
       distance rgb (PICO8_PALETTE ! snd (closest_loop rgb (enumerate 0 PICO8_PALETTE)))
         < distance rgb (PICO8_PALETTE ! j))"
proof -
  have ne: "PICO8_PALETTE \<noteq> []" by (simp add: PICO8_PALETTE_def)
  obtain m c where st: "fold (closest_step rgb) (enumerate 0 PICO8_PALETTE) (None, 0) = (m, c)"
    by (cases "fold (closest_step rgb) (enumerate 0 PICO8_PALETTE) (None, 0)") auto
  have c: "snd (closest_loop rgb (enumerate 0 PICO8_PALETTE)) = c"
    by (simp add: closest_loop_def st)
  from closest_loop_inv [OF ne st] show ?thesis
    unfolding c length_PICO8_PALETTE by simp
qed

lemma rgb_to_pico8_color_less: "rgb_to_pico8_color rgb < 16"
  using closest_loop_palette [of rgb] by (simp add: rgb_to_pico8_color_def)

lemma find_closest_pico8_color_less: "find_closest_pico8_color rgb < 16"
  using closest_loop_palette [of rgb] closest_loop_palette [of "take 3 rgb"]
  by (simp add: find_closest_pico8_color_def)

lemma distance_rgb:
  "distance [r, g, b] [p, q, s] = (r - p)\<^sup>2 + (g - q)\<^sup>2 + (b - s)\<^sup>2"
  by (simp add: distance_def)

lemma rgb_to_pico8_color_red: "rgb_to_pico8_color [255, 0, 77] = 8"
  by (simp add: rgb_to_pico8_color_def closest_loop_def PICO8_PALETTE_def distance_def
      enumerate_eq_zip Let_def upt_rec)

text \<open>
  Claim C7.  For every RGB triple the quantizer \<open>rgb_to_pico8_color\<close> returns an index
  below 16 whose palette entry is at minimum squared Euclidean distance from the input,
  and every palette entry with a lower index is strictly farther away (ties go to the
  lowest index).  The function is total and its result depends on the input alone.
\<close>

theorem rgb_to_pico8_color_nearest_first:
  "rgb_to_pico8_color [r, g, b] < 16 \<and>
   (\<forall>j<16. distance [r, g, b] (PICO8_PALETTE ! rgb_to_pico8_color [r, g, b])
              \<le> distance [r, g, b] (PICO8_PALETTE ! j)) \<and>
   (\<forall>j<rgb_to_pico8_color [r, g, b].
       distance [r, g, b] (PICO8_PALETTE ! rgb_to_pico8_color [r, g, b])
         < distance [r, g, b] (PICO8_PALETTE ! j))"
  using closest_loop_palette [of "[r, g, b]"] by (simp add: rgb_to_pico8_color_def)

theorem rgb_to_pico8_color_nearest_first_witness:
  "rgb_to_pico8_color [250, 10, 70] = 8 \<and>
   list_all (\<lambda>j. distance [250, 10, 70] (PICO8_PALETTE ! 8) \<le> distance [250, 10, 70] (PICO8_PALETTE ! j))
     [0..<16] \<and>
   list_all (\<lambda>j. distance [250, 10, 70] (PICO8_PALETTE ! 8) < distance [250, 10, 70] (PICO8_PALETTE ! j))
     [0..<8]"
proof -
  have v: "rgb_to_pico8_color [250, 10, 70] = 8"
    by (simp add: rgb_to_pico8_color_def closest_loop_def PICO8_PALETTE_def distance_def
        enumerate_eq_zip Let_def upt_rec)
  show ?thesis
    using rgb_to_pico8_color_nearest_first [of 250 10 70] unfolding v list_all_iff by simp
qed

text \<open>
  Claim C8, as amended.  In png_to_pico8.py and png_extract_all_sprites.py a sample that
  carries an alpha channel (a 4-tuple) whose alpha is 0 is mapped to palette index 0 by
  \<open>find_closest_pico8_color\<close>, whatever its red, green and blue components are.
  sprite_extractor.py converts the image to RGB first: the alpha value is discarded, and
  the sample is quantized by its red, green and blue components alone.
\<close>

theorem find_closest_pico8_color_transparent:
  "find_closest_pico8_color [r, g, b, 0] = 0 \<and>
   rgb_to_pico8_color (convert_RGB [r, g, b, a]) = rgb_to_pico8_color [r, g, b]"
  by (simp add: find_closest_pico8_color_def convert_RGB_def)

text \<open>
  Claim C8 as stated fails for sprite_extractor.py: a fully transparent pixel with the
  red, green and blue components of palette colour 8 comes out as index 8, not 0, after
  the conversion to RGB, and also when the quantizer of that script is given the RGBA
  sample itself, while the quantizer of the other two scripts gives 0.
\<close>

theorem transparent_pixel_counterexample:
  "rgb_to_pico8_color (convert_RGB [255, 0, 77, 0]) = 8 \<and>
   rgb_to_pico8_color [255, 0, 77, 0] = 8 \<and>
   find_closest_pico8_color [255, 0, 77, 0] = 0"
  by (simp add: rgb_to_pico8_color_def find_closest_pico8_color_def convert_RGB_def closest_loop_def
      PICO8_PALETTE_def distance_def enumerate_eq_zip Let_def upt_rec)

section \<open>Properties of the encoders\<close>

lemma map_err_Inr:
  "(\<And>x. x \<in> set xs \<Longrightarrow> f x = Inr (g x)) \<Longrightarrow> map_err f xs = Inr (map g xs)"
  by (induction xs) (simp_all add: bind_err_def)

lemma hex_str_digit: "n < 16 \<Longrightarrow> hex_str n = [hex_digit n]"
  by (simp add: hex_str.simps)

lemma high_bit_nibble: "p2 < 16 \<Longrightarrow> 4 \<le> n \<Longrightarrow> \<not> bit (p2::nat) n"
proof -
  assume a: "p2 < 16" "4 \<le> n"
  have "(2::nat) ^ 4 \<le> 2 ^ n" using a(2) by (rule power_increasing) simp
  then have "p2 < 2 ^ n" using a(1) by simp
  then show ?thesis by (simp add: bit_iff_odd)
qed

lemma nibbles_disjoint: "p2 < 16 \<Longrightarrow> push_bit 4 p1 AND p2 = (0::nat)"
  by (rule bit_eqI) (auto simp: bit_simps high_bit_nibble)

lemma pack_nibbles: "p2 < 16 \<Longrightarrow> push_bit 4 p1 OR p2 = 16 * p1 + (p2::nat)"
  using disjunctive_add_eq_or [OF nibbles_disjoint, of p2 p1] by (simp add: push_bit_eq_mult)

lemma fmt_02x_byte:
  assumes "p1 < 16" "p2 < 16"
  shows "fmt_02x (push_bit 4 p1 OR p2) = hex_str p1 @ hex_str p2"
proof -
  have e: "push_bit 4 p1 OR p2 = 16 * p1 + p2" using assms pack_nibbles by simp
  show ?thesis
  proof (cases "p1 = 0")
    case True
    with assms e show ?thesis
      by (simp add: fmt_02x_def hex_str_digit hex_digit_def)
  next
    case False
    with assms have "\<not> 16 * p1 + p2 < 16" by simp
    then have "hex_str (16 * p1 + p2) = hex_str p1 @ [hex_digit p2]"
      using assms by (subst hex_str.simps) simp
    with assms e show ?thesis
      by (simp add: fmt_02x_def hex_str_digit)
  qed
qed

lemma concat_pairs:
  "length row = 2 * n \<Longrightarrow>
   concat (map (\<lambda>k. f (row ! (2 * k)) @ f (row ! (2 * k + 1))) [0..<n]) = concat (map f row)"
proof (induction n arbitrary: row)
  case 0
  then show ?case by simp
next
  case (Suc n)
  then obtain a b rest where row: "row = a # b # rest" and len: "length rest = 2 * n"
    by (cases row; cases "tl row") auto
  have "[0..<Suc n] = 0 # map Suc [0..<n]"
    by (simp add: upt_conv_Cons map_Suc_upt del: upt_Suc)
  then show ?case
    using Suc.IH [OF len] by (simp add: row comp_def del: upt_Suc)
qed

text \<open>A sheet as the packer builds it: 128 rows of 128 palette indices.\<close>

lemma hex_byte_at_Inr:
  assumes "y < length sh" "length (sh ! y) = 128" "\<forall>v\<in>set (sh ! y). v < 16" "k < 64"
  shows "hex_byte_at sh y (2 * k) = Inr (hex_str (sh ! y ! (2 * k)) @ hex_str (sh ! y ! (2 * k + 1)))"
proof -
  have "sh ! y ! (2 * k) < 16" "sh ! y ! (2 * k + 1) < 16"
    using assms by (simp_all add: all_set_conv_all_nth)
  then show ?thesis
    using assms by (simp add: hex_byte_at_def getitem_def bind_err_def fmt_02x_byte)
qed

lemma gfx_line_Inr:
  assumes "y < length sh" "length (sh ! y) = 128" "\<forall>v\<in>set (sh ! y). v < 16"
  shows "gfx_line sh y = Inr (concat (map hex_str (sh ! y)))"
proof -
  have "map_err (hex_byte_at sh y) (map (\<lambda>k. 2 * k) [0..<64])
      = Inr (map (\<lambda>x. hex_str (sh ! y ! x) @ hex_str (sh ! y ! (x + 1))) (map (\<lambda>k. 2 * k) [0..<64]))"
  proof (rule map_err_Inr)
    fix x assume "x \<in> set (map (\<lambda>k. 2 * k) [0..<64])"
    then obtain k where k: "x = 2 * k" "k < 64"
      unfolding set_map set_upt by auto
    show "hex_byte_at sh y x = Inr (hex_str (sh ! y ! x) @ hex_str (sh ! y ! (x + 1)))"
      unfolding k(1) using hex_byte_at_Inr [OF assms k(2)] by simp
  qed
  moreover have "concat (map (\<lambda>k. hex_str (sh ! y ! (2 * k)) @ hex_str (sh ! y ! (2 * k + 1))) [0..<64])
      = concat (map hex_str (sh ! y))"
    by (rule concat_pairs) (use assms in simp)
  ultimately show ?thesis
    unfolding gfx_line_def bind_err_def by (simp only: map_map comp_def sum.case)
qed

lemma gfx_lines_rows:
  assumes "length sh = 128"
    and "\<forall>row\<in>set sh. length row = 128 \<and> (\<forall>v\<in>set row. v < 16)"
  shows "map_err (gfx_line sh) [0..<128] = Inr (map (\<lambda>y. concat (map hex_str (sh ! y))) [0..<128])"
proof (rule map_err_Inr)
  fix y assume "y \<in> set [0..<128]"
  then have "y < 128" unfolding set_upt by simp
  then have y: "y < length sh" using assms(1) by simp
  then have "sh ! y \<in> set sh" by simp
  with assms(2) have "length (sh ! y) = 128" "\<forall>v\<in>set (sh ! y). v < 16" by auto
  with y show "gfx_line sh y = Inr (concat (map hex_str (sh ! y)))"
    by (rule gfx_line_Inr)
qed

text \<open>
  Claim C9.  On a 128x128 sheet of palette indices below 16, the encoder of
  \<open>save_pico8_sprite_data\<close>, which packs two pixels into a byte and prints the byte as two
  lowercase hexadecimal digits, raises nothing and writes line for line the 128 lines
  that \<open>sprite_to_hex_string\<close>, which prints one hexadecimal digit per pixel, produces.
\<close>

theorem gfx_lines_eq_sprite_to_hex_string:
  assumes "length sh = 128"
    and "\<forall>row\<in>set sh. length row = 128 \<and> (\<forall>v\<in>set row. v < 16)"
  shows "gfx_lines sh = Inr (sprite_to_hex_string sh)"
proof -
  have "map_err (gfx_line sh) [0..<128] = Inr (map (\<lambda>y. concat (map hex_str (sh ! y))) [0..<128])"
    using assms by (rule gfx_lines_rows)
  moreover have "map (\<lambda>y. concat (map hex_str (sh ! y))) [0..<length sh] = map (\<lambda>row. concat (map hex_str row)) sh"
    by (rule nth_equalityI) simp_all
  ultimately show ?thesis
    unfolding gfx_lines_def sprite_to_hex_string_def assms(1) by (simp only:)
qed

theorem gfx_lines_eq_sprite_to_hex_string_witness:
  "gfx_lines (map (\<lambda>y. map (\<lambda>x. (x + y) mod 16) [0..<128]) [0..<128])
     = Inr (sprite_to_hex_string (map (\<lambda>y. map (\<lambda>x. (x + y) mod 16) [0..<128]) [0..<128]))"
proof (rule gfx_lines_eq_sprite_to_hex_string)
  show "length (map (\<lambda>y. map (\<lambda>x. (x + y) mod 16) [0..<128]) [0..<128]) = 128"
    by (simp only: length_map length_upt)
  show "\<forall>row\<in>set (map (\<lambda>y. map (\<lambda>x. (x + y) mod 16) [0..<128]) [0..<128]).
          length row = 128 \<and> (\<forall>v\<in>set row. v < 16)"
  proof
    fix row assume "row \<in> set (map (\<lambda>y. map (\<lambda>x. (x + y) mod 16) [0..<128]) [0..<128])"
    then obtain y where row: "row = map (\<lambda>x. (x + y) mod 16) [0..<128]"
      unfolding set_map by blast
    have "length row = 128" unfolding row by (simp only: length_map length_upt)
    moreover have "\<forall>v\<in>set row. v < 16" unfolding row set_map by auto
    ultimately show "length row = 128 \<and> (\<forall>v\<in>set row. v < 16)" ..
  qed
qed

section \<open>Properties of grid extraction\<close>

lemma sprite_pixels_crop:
  assumes "x * S + S \<le> width img" "y * S + S \<le> height img"
  shows "sprite_pixels (crop img (x * S, y * S, x * S + S, y * S + S)) S = Inr (cell_data img S x y)"
  unfolding sprite_pixels_def cell_data_def
proof (rule map_err_Inr)
  fix py assume "py \<in> set [0..<S]"
  then have py: "py < S" by simp
  show "map_err (\<lambda>px. bind_err (getpixel (crop img (x * S, y * S, x * S + S, y * S + S)) (px, py))
                  (\<lambda>rgb. Inr (rgb_to_pico8_color rgb))) [0..<S]
        = Inr (map (\<lambda>px. rgb_to_pico8_color (pixel_at img (x * S + px) (y * S + py))) [0..<S])"
  proof (rule map_err_Inr)
    fix px assume "px \<in> set [0..<S]"
    then have px: "px < S" by simp
    show "bind_err (getpixel (crop img (x * S, y * S, x * S + S, y * S + S)) (px, py))
            (\<lambda>rgb. Inr (rgb_to_pico8_color rgb))
          = Inr (rgb_to_pico8_color (pixel_at img (x * S + px) (y * S + py)))"
      using assms px py by (simp add: getpixel_def crop_def bind_err_def)
  qed
qed

lemma extract_cell_Inr:
  assumes "x * S + S \<le> width img" "y * S + S \<le> height img"
  shows "extract_cell img S (y, x) acc = Inr (acc @ [cell_sprite img S (length acc) (y, x)])"
  using sprite_pixels_crop [OF assms]
  by (simp add: extract_cell_def Let_def bind_err_def cell_sprite_def)

lemma fold_extract_cell:
  assumes "\<forall>(y, x)\<in>set cs. x * S + S \<le> width img \<and> y * S + S \<le> height img"
  shows "fold_err (extract_cell img S) cs acc
       = Inr (acc @ map (\<lambda>(k, yx). cell_sprite img S k yx) (enumerate (length acc) cs))"
  using assms
proof (induction cs arbitrary: acc)
  case Nil
  then show ?case by simp
next
  case (Cons c cs)
  obtain y x where c: "c = (y, x)" by (cases c)
  from Cons.prems c have r: "x * S + S \<le> width img" "y * S + S \<le> height img" by auto
  from Cons.prems have rest: "\<forall>(y, x)\<in>set cs. x * S + S \<le> width img \<and> y * S + S \<le> height img"
    by simp
  show ?case
    unfolding c using extract_cell_Inr [OF r, of acc] Cons.IH [OF rest]
    by (simp add: bind_err_def)
qed

lemma grid_in_range:
  assumes "0 < S" "x < W div S"
  shows "x * S + S \<le> (W::nat)"
proof -
  have "Suc x \<le> W div S" using assms by simp
  then have "Suc x * S \<le> (W div S) * S" by (rule mult_le_mono1)
  also have "\<dots> \<le> W" by simp
  finally show ?thesis by simp
qed

lemma extract_body_Inr:
  assumes "0 < S"
  shows "extract_body img S
       = Inr (map (\<lambda>(k, yx). cell_sprite img S k yx)
                (enumerate 0 (List.product [0..<height img div S] [0..<width img div S])))"
proof -
  have "\<forall>(y, x)\<in>set (List.product [0..<height img div S] [0..<width img div S]).
          x * S + S \<le> width img \<and> y * S + S \<le> height img"
    using assms by (auto simp: grid_in_range)
  from fold_extract_cell [OF this, of "[]"] show ?thesis
    using assms by (simp add: extract_body_def floordiv_def bind_err_def)
qed

lemma extract_nth:
  assumes "0 < S" "gy < height img div S" "gx < width img div S"
  shows "extract_sprites_from_png img S ! (gy * (width img div S) + gx)
       = cell_sprite img S (gy * (width img div S) + gx) (gy, gx)"
proof -
  let ?c = "width img div S" and ?r = "height img div S"
  have lt: "gy * ?c + gx < ?r * ?c"
  proof -
    have "gy * ?c + gx < gy * ?c + ?c" using assms(3) by simp
    also have "\<dots> = Suc gy * ?c" by simp
    also have "\<dots> \<le> ?r * ?c" using assms(2) by (intro mult_le_mono1) simp
    finally show ?thesis .
  qed
  have "List.product [0..<?r] [0..<?c] ! (gy * ?c + gx) = (gy, gx)"
    using lt assms(2,3) by (simp add: product_nth)
  then show ?thesis
    using lt by (simp add: extract_sprites_from_png_def extract_body_Inr [OF assms(1)] nth_enumerate_eq)
qed

lemma extract_length:
  "0 < S \<Longrightarrow> length (extract_sprites_from_png img S) = (width img div S) * (height img div S)"
  by (simp add: extract_sprites_from_png_def extract_body_Inr mult.commute)


text \<open>
  Claim C6.  For a cell size \<open>S\<close> of 8, 16 or 32 and an image of any width and height,
  extraction yields exactly \<open>(width div S) * (height div S)\<close> sprites; the sprite at list
  position \<open>gy * cols + gx\<close> (row-major, \<open>gy\<close> outer) has that number as its id and
  \<open>(gx, gy)\<close> as its position, its data are \<open>S\<close> rows of \<open>S\<close> palette indices below 16,
  each the quantized colour of the image pixel it covers; and an image narrower or lower
  than one cell yields no sprite.
\<close>

theorem extract_sprites_from_png_grid:
  assumes "S = 8 \<or> S = 16 \<or> S = 32"
  shows "length (extract_sprites_from_png img S) = (width img div S) * (height img div S) \<and>
    (\<forall>gy<height img div S. \<forall>gx<width img div S.
       sp_id (extract_sprites_from_png img S ! (gy * (width img div S) + gx)) = gy * (width img div S) + gx \<and>
       sp_x (extract_sprites_from_png img S ! (gy * (width img div S) + gx)) = gx \<and>
       sp_y (extract_sprites_from_png img S ! (gy * (width img div S) + gx)) = gy \<and>
       sp_size (extract_sprites_from_png img S ! (gy * (width img div S) + gx)) = S \<and>
       length (sp_data (extract_sprites_from_png img S ! (gy * (width img div S) + gx))) = S \<and>
       (\<forall>py<S.
          length (sp_data (extract_sprites_from_png img S ! (gy * (width img div S) + gx)) ! py) = S \<and>
          (\<forall>px<S.
             sp_data (extract_sprites_from_png img S ! (gy * (width img div S) + gx)) ! py ! px
               = rgb_to_pico8_color (pixel_at img (gx * S + px) (gy * S + py)) \<and>
             sp_data (extract_sprites_from_png img S ! (gy * (width img div S) + gx)) ! py ! px < 16))) \<and>
    (width img < S \<or> height img < S \<longrightarrow> extract_sprites_from_png img S = [])"
proof -
  from assms have S: "0 < S" by auto
  have len: "length (extract_sprites_from_png img S) = (width img div S) * (height img div S)"
    using S by (rule extract_length)
  have cells: "\<forall>gy<height img div S. \<forall>gx<width img div S.
       sp_id (extract_sprites_from_png img S ! (gy * (width img div S) + gx)) = gy * (width img div S) + gx \<and>
       sp_x (extract_sprites_from_png img S ! (gy * (width img div S) + gx)) = gx \<and>
       sp_y (extract_sprites_from_png img S ! (gy * (width img div S) + gx)) = gy \<and>
       sp_size (extract_sprites_from_png img S ! (gy * (width img div S) + gx)) = S \<and>
       length (sp_data (extract_sprites_from_png img S ! (gy * (width img div S) + gx))) = S \<and>
       (\<forall>py<S.
          length (sp_data (extract_sprites_from_png img S ! (gy * (width img div S) + gx)) ! py) = S \<and>
          (\<forall>px<S.
             sp_data (extract_sprites_from_png img S ! (gy * (width img div S) + gx)) ! py ! px
               = rgb_to_pico8_color (pixel_at img (gx * S + px) (gy * S + py)) \<and>
             sp_data (extract_sprites_from_png img S ! (gy * (width img div S) + gx)) ! py ! px < 16))"
  proof (intro allI impI)
    fix gy gx assume g: "gy < height img div S" "gx < width img div S"
    show "sp_id (extract_sprites_from_png img S ! (gy * (width img div S) + gx)) = gy * (width img div S) + gx \<and>
       sp_x (extract_sprites_from_png img S ! (gy * (width img div S) + gx)) = gx \<and>
       sp_y (extract_sprites_from_png img S ! (gy * (width img div S) + gx)) = gy \<and>
       sp_size (extract_sprites_from_png img S ! (gy * (width img div S) + gx)) = S \<and>
       length (sp_data (extract_sprites_from_png img S ! (gy * (width img div S) + gx))) = S \<and>
       (\<forall>py<S.
          length (sp_data (extract_sprites_from_png img S ! (gy * (width img div S) + gx)) ! py) = S \<and>
          (\<forall>px<S.
             sp_data (extract_sprites_from_png img S ! (gy * (width img div S) + gx)) ! py ! px
               = rgb_to_pico8_color (pixel_at img (gx * S + px) (gy * S + py)) \<and>
             sp_data (extract_sprites_from_png img S ! (gy * (width img div S) + gx)) ! py ! px < 16))"
      unfolding extract_nth [OF S g]
      by (simp add: cell_sprite_def cell_data_def rgb_to_pico8_color_less)
  qed
  have small: "width img < S \<or> height img < S \<longrightarrow> extract_sprites_from_png img S = []"
    using len by auto
  show ?thesis by (intro conjI len cells small)
qed

theorem extract_sprites_from_png_grid_witness:
  "length (extract_sprites_from_png
      \<lparr>width = 17, height = 9, pixel_at = (\<lambda>x y. if x < 8 then [0, 0, 0] else [255, 0, 77])\<rparr> 8) = 2 \<and>
   sp_id (extract_sprites_from_png
      \<lparr>width = 17, height = 9, pixel_at = (\<lambda>x y. if x < 8 then [0, 0, 0] else [255, 0, 77])\<rparr> 8 ! 1) = 1 \<and>
   sp_x (extract_sprites_from_png
      \<lparr>width = 17, height = 9, pixel_at = (\<lambda>x y. if x < 8 then [0, 0, 0] else [255, 0, 77])\<rparr> 8 ! 1) = 1 \<and>
   sp_y (extract_sprites_from_png
      \<lparr>width = 17, height = 9, pixel_at = (\<lambda>x y. if x < 8 then [0, 0, 0] else [255, 0, 77])\<rparr> 8 ! 1) = 0 \<and>
   sp_data (extract_sprites_from_png
      \<lparr>width = 17, height = 9, pixel_at = (\<lambda>x y. if x < 8 then [0, 0, 0] else [255, 0, 77])\<rparr> 8 ! 1) ! 3 ! 4 = 8"
proof -
  let ?img = "\<lparr>width = 17, height = 9, pixel_at = (\<lambda>x y. if x < 8 then [0, 0, 0] else [255::int, 0, 77])\<rparr>"
  have S: "(8::nat) = 8 \<or> (8::nat) = 16 \<or> (8::nat) = 32" by simp
  note t = extract_sprites_from_png_grid [OF S, of ?img]
  have w: "width ?img div 8 = 2" and h: "height ?img div 8 = 1" by simp_all
  from t have len: "length (extract_sprites_from_png ?img 8) = 2" unfolding w h by simp
  have p: "(0::nat) < 1" "(1::nat) < 2" "(3::nat) < 8" "(4::nat) < 8" by simp_all
  have idx: "(0::nat) * 2 + 1 = 1" by simp
  note cell = t [THEN conjunct2, THEN conjunct1, unfolded w h, rule_format, OF p(1) p(2), unfolded idx]
  note data = cell [THEN conjunct2, THEN conjunct2, THEN conjunct2, THEN conjunct2, THEN conjunct2,
      rule_format, OF p(3), THEN conjunct2, rule_format, OF p(4), THEN conjunct1]
  have v: "sp_data (extract_sprites_from_png ?img 8 ! 1) ! 3 ! 4 = 8"
    using data by (simp add: rgb_to_pico8_color_red)
  have "sp_id (extract_sprites_from_png ?img 8 ! 1) = 1"
    using cell [THEN conjunct1] .
  moreover have "sp_x (extract_sprites_from_png ?img 8 ! 1) = 1"
    using cell [THEN conjunct2, THEN conjunct1] .
  moreover have "sp_y (extract_sprites_from_png ?img 8 ! 1) = 0"
    using cell [THEN conjunct2, THEN conjunct2, THEN conjunct1] .
  ultimately show ?thesis using len v by (intro conjI)
qed

section \<open>Properties of the packer\<close>

subsection \<open>The assignments of a placement\<close>


lemma grid_size_16 [simp]: "grid_size = 16"
  by (simp add: grid_size_def sheet_size_def)

lemma in_concat_map_upt: "c \<in> set (concat (map f [0..<n])) \<longleftrightarrow> (\<exists>k<n. c \<in> set (f k))"
  by auto

lemma in_map_upt: "c \<in> set (map g [0..<n]) \<longleftrightarrow> (\<exists>k<n. c = g k)"
  by auto

lemma in_copies_chunks:
  "c \<in> set (copies_chunks n sx sy) \<longleftrightarrow>
     (\<exists>cy<n. \<exists>cx<n. \<exists>y<8. \<exists>x<8.
        c = ((sy + cy * 8 + y, sx + cx * 8 + x), (cy * 8 + y, cx * 8 + x)))"
  unfolding copies_chunks_def Let_def in_concat_map_upt in_map_upt ..

lemma in_copies8:
  "c \<in> set (copies8 sx sy) \<longleftrightarrow> (\<exists>y<8. \<exists>x<8. c = ((sy + y, sx + x), (y, x)))"
  unfolding copies8_def in_concat_map_upt in_map_upt ..

lemma in_copies_chunks_block:
  "c \<in> set (copies_chunks n sx sy) \<longleftrightarrow>
     (\<exists>Y<8 * n. \<exists>X<8 * n. c = ((sy + Y, sx + X), (Y, X)))"
proof
  assume "c \<in> set (copies_chunks n sx sy)"
  then obtain cy cx y x where r: "cy < n" "cx < n" "y < 8" "x < 8"
    and c: "c = ((sy + cy * 8 + y, sx + cx * 8 + x), (cy * 8 + y, cx * 8 + x))"
    unfolding in_copies_chunks by blast
  from r have "cy * 8 + y < 8 * n" "cx * 8 + x < 8 * n" by linarith+
  moreover have "c = ((sy + (cy * 8 + y), sx + (cx * 8 + x)), (cy * 8 + y, cx * 8 + x))"
    unfolding c by (simp only: add.assoc)
  ultimately show "\<exists>Y<8 * n. \<exists>X<8 * n. c = ((sy + Y, sx + X), (Y, X))" by blast
next
  assume "\<exists>Y<8 * n. \<exists>X<8 * n. c = ((sy + Y, sx + X), (Y, X))"
  then obtain Y X where r: "Y < 8 * n" "X < 8 * n" and c: "c = ((sy + Y, sx + X), (Y, X))"
    by blast
  from r have d: "Y div 8 < n" "X div 8 < n"
    by (simp_all add: less_mult_imp_div_less mult.commute)
  have m: "Y mod 8 < 8" "X mod 8 < 8" by simp_all
  have e: "sy + Y = sy + Y div 8 * 8 + Y mod 8" "sx + X = sx + X div 8 * 8 + X mod 8"
     "Y = Y div 8 * 8 + Y mod 8" "X = X div 8 * 8 + X mod 8" by simp_all
  have "c = ((sy + Y div 8 * 8 + Y mod 8, sx + X div 8 * 8 + X mod 8),
             (Y div 8 * 8 + Y mod 8, X div 8 * 8 + X mod 8))"
    unfolding c using e by (simp only: prod.inject)
  with d m show "c \<in> set (copies_chunks n sx sy)"
    unfolding in_copies_chunks by blast
qed


lemma in_copies_of:
  assumes "sp_size s = 8 \<or> sp_size s = 16 \<or> sp_size s = 32"
  shows "c \<in> set (copies_of (i, s)) \<longleftrightarrow>
     (\<exists>Y<sp_size s. \<exists>X<sp_size s. c = ((i div 16 * 8 + Y, i mod 16 * 8 + X), (Y, X)))"
proof -
  have 8: "c \<in> set (copies8 (i mod 16 * 8) (i div 16 * 8)) \<longleftrightarrow>
      (\<exists>Y<8. \<exists>X<8. c = ((i div 16 * 8 + Y, i mod 16 * 8 + X), (Y, X)))"
    by (rule in_copies8)
  have 16: "c \<in> set (copies_chunks 2 (i mod 16 * 8) (i div 16 * 8)) \<longleftrightarrow>
      (\<exists>Y<16. \<exists>X<16. c = ((i div 16 * 8 + Y, i mod 16 * 8 + X), (Y, X)))"
    using in_copies_chunks_block [of c 2] by simp
  have 32: "c \<in> set (copies_chunks 4 (i mod 16 * 8) (i div 16 * 8)) \<longleftrightarrow>
      (\<exists>Y<32. \<exists>X<32. c = ((i div 16 * 8 + Y, i mod 16 * 8 + X), (Y, X)))"
    using in_copies_chunks_block [of c 4] by simp
  from assms show ?thesis
  proof (elim disjE)
    assume "sp_size s = 8" then show ?thesis using 8 by (simp add: copies_of_def)
  next
    assume "sp_size s = 16" then show ?thesis using 16 by (simp add: copies_of_def)
  next
    assume "sp_size s = 32" then show ?thesis using 32 by (simp add: copies_of_def)
  qed
qed

lemma dest_cells_block:
  assumes "sp_size s = 8 \<or> sp_size s = 16 \<or> sp_size s = 32"
  shows "dest_cells (i, s) =
     {i mod 16 ..< i mod 16 + sp_size s div 8} \<times> {i div 16 ..< i div 16 + sp_size s div 8}"
proof -
  from assms obtain F where S: "sp_size s = F * 8"
    by (elim disjE) (rule that [of 1], simp, rule that [of 2], simp, rule that [of 4], simp)
  then have F: "sp_size s div 8 = F" by simp
  show ?thesis
    unfolding F
  proof (intro set_eqI iffI)
    fix c assume "c \<in> dest_cells (i, s)"
    then obtain k where c: "c = cell_of_copy k" and k: "k \<in> set (copies_of (i, s))"
      unfolding dest_cells_def by (rule imageE)
    from k obtain Y X where r: "Y < F * 8" "X < F * 8"
      and kk: "k = ((i div 16 * 8 + Y, i mod 16 * 8 + X), (Y, X))"
      unfolding in_copies_of [OF assms] S by blast
    from r have "X div 8 < F" "Y div 8 < F"
      by (simp_all add: less_mult_imp_div_less)
    then show "c \<in> {i mod 16 ..< i mod 16 + F} \<times> {i div 16 ..< i div 16 + F}"
      unfolding c kk by (simp add: cell_of_copy_def)
  next
    fix c assume a: "c \<in> {i mod 16 ..< i mod 16 + F} \<times> {i div 16 ..< i div 16 + F}"
    define a b where "a = fst c - i mod 16" and "b = snd c - i div 16"
    from a have b: "i mod 16 \<le> fst c" "fst c < i mod 16 + F" "i div 16 \<le> snd c" "snd c < i div 16 + F"
      unfolding mem_Times_iff by simp_all
    then have r: "a < F" "b < F" unfolding a_def b_def by linarith+
    have c: "c = (i mod 16 + a, i div 16 + b)"
      unfolding a_def b_def using b by (simp add: prod_eq_iff)
    from r have r8: "8 * b < F * 8" "8 * a < F * 8" by simp_all
    then have "((i div 16 * 8 + 8 * b, i mod 16 * 8 + 8 * a), (8 * b, 8 * a)) \<in> set (copies_of (i, s))"
      unfolding in_copies_of [OF assms] S by blast
    then have "cell_of_copy ((i div 16 * 8 + 8 * b, i mod 16 * 8 + 8 * a), (8 * b, 8 * a)) \<in> dest_cells (i, s)"
      unfolding dest_cells_def by (rule imageI)
    then show "c \<in> dest_cells (i, s)"
      unfolding c by (simp add: cell_of_copy_def)
  qed
qed

subsection \<open>The placements of a run\<close>

lemma pack_loop_placed:
  "pack_loop ss i sh placed = Inr (sh', placed') \<Longrightarrow> placed' = placed @ placements ss i"
proof (induction ss i sh placed rule: pack_loop.induct)
  case (1 i sh placed)
  then show ?case by simp
next
  case (2 s rest i sh placed)
  show ?case
  proof (cases "256 \<le> i")
    case True
    with "2.prems" show ?thesis by simp
  next
    case False
    note run = False
    consider (a) "sp_size s = 8" | (b) "sp_size s = 16" | (c) "sp_size s = 32"
      | (d) "sp_size s \<noteq> 8" "sp_size s \<noteq> 16" "sp_size s \<noteq> 32" by blast
    then show ?thesis
    proof cases
      case a
      with run "2.prems" obtain b where
        b: "fold_err (assign (sp_data s)) (copies8 (i mod grid_size * 8) (i div grid_size * 8)) sh = Inr b"
        and r: "pack_loop rest (i + 1) b (placed @ [(i, s)]) = Inr (sh', placed')"
        by (auto simp: Let_def split: sum.splits)
      from "2.IH"(1) [OF _ refl refl a b r] run have "placed' = (placed @ [(i, s)]) @ placements rest (i + 1)"
        by simp
      with a run show ?thesis by simp
    next
      case b
      show ?thesis
      proof (cases "14 < i mod 16 \<or> 14 < i div 16")
        case True
        with b run "2.prems" have r: "pack_loop rest i sh placed = Inr (sh', placed')"
          by (simp add: Let_def)
        from "2.IH"(2) [OF _ refl refl _ b _ r] True run b have "placed' = placed @ placements rest i"
          by simp
        with b run True show ?thesis by simp
      next
        case False
        with b run "2.prems" obtain c where
          c: "fold_err (assign (sp_data s)) (copies_chunks 2 (i mod grid_size * 8) (i div grid_size * 8)) sh = Inr c"
          and r: "pack_loop rest (advance16 i) c (placed @ [(i, s)]) = Inr (sh', placed')"
          by (auto simp: Let_def split: sum.splits)
        from "2.IH"(3) [OF _ refl refl _ b _ c r] False run b
        have "placed' = (placed @ [(i, s)]) @ placements rest (advance16 i)"
          by simp
        with b run False show ?thesis by simp
      qed
    next
      case c
      show ?thesis
      proof (cases "12 < i mod 16 \<or> 12 < i div 16")
        case True
        with c run "2.prems" have r: "pack_loop rest i sh placed = Inr (sh', placed')"
          by (simp add: Let_def)
        from "2.IH"(4) [OF _ refl refl _ _ c _ r] True run c have "placed' = placed @ placements rest i"
          by simp
        with c run True show ?thesis by simp
      next
        case False
        with c run "2.prems" obtain d where
          d: "fold_err (assign (sp_data s)) (copies_chunks 4 (i mod grid_size * 8) (i div grid_size * 8)) sh = Inr d"
          and r: "pack_loop rest (advance32 i) d (placed @ [(i, s)]) = Inr (sh', placed')"
          by (auto simp: Let_def split: sum.splits)
        from "2.IH"(5) [OF _ refl refl _ _ c _ d r] False run c
        have "placed' = (placed @ [(i, s)]) @ placements rest (advance32 i)"
          by simp
        with c run False show ?thesis by simp
      qed
    next
      case d
      with run "2.prems" have r: "pack_loop rest i sh placed = Inr (sh', placed')"
        by (simp add: Let_def)
      from "2.IH"(6) [OF _ refl refl _ _ _ r] run d have "placed' = placed @ placements rest i"
        by simp
      with d run show ?thesis by simp
    qed
  qed
qed

lemma placements_fits: "p \<in> set (placements ss i) \<Longrightarrow> fits p"
proof (induction ss arbitrary: i)
  case Nil
  then show ?case by simp
next
  case (Cons s ss)
  have step: "fits (i, s)"
    if "i < 256" "sp_size s = 8 \<or> sp_size s = 16 \<and> i mod 16 \<le> 14 \<and> i div 16 \<le> 14
          \<or> sp_size s = 32 \<and> i mod 16 \<le> 12 \<and> i div 16 \<le> 12"
  proof -
    have "i mod 16 < 16" by simp
    moreover have "i div 16 < 16" using that(1) by (simp add: less_mult_imp_div_less)
    ultimately show ?thesis using that(2) by (auto simp: fits_def)
  qed
  from Cons.prems show ?case
    by (auto simp: not_less not_le split: if_splits intro: step dest: Cons.IH)
qed

subsection \<open>Placing a sprite raises nothing when the sprite is well-formed\<close>

lemma sheet_ok_nth: "sheet_ok sh \<longleftrightarrow> length sh = 128 \<and> (\<forall>n<128. length (sh ! n) = 128)"
  by (auto simp: sheet_ok_def list_all_length)

lemma sheet_ok_zero: "sheet_ok (replicate sheet_size (replicate sheet_size 0))"
  by (simp add: sheet_ok_nth sheet_size_def)

lemma put_sheet_ok:
  assumes "sheet_ok sh"
  shows "sheet_ok (put data c sh)"
proof -
  obtain Y X sy sx where c: "c = ((Y, X), (sy, sx))" by (cases c) auto
  from assms have len: "length sh = 128" and rows: "\<And>n. n < 128 \<Longrightarrow> length (sh ! n) = 128"
    by (simp_all add: sheet_ok_nth)
  have "length (sh[Y := (sh ! Y)[X := data ! sy ! sx]] ! n) = 128" if "n < 128" for n
  proof (cases "n = Y")
    case True
    with that len rows [of Y] show ?thesis by simp
  next
    case False
    with that rows [of n] show ?thesis by simp
  qed
  with len show ?thesis
    unfolding c by (simp add: sheet_ok_nth put_def)
qed

lemma assign_put:
  assumes "sheet_ok sh" "Y < 128" "X < 128" "sy < length data" "sx < length (data ! sy)"
  shows "assign data ((Y, X), (sy, sx)) sh = Inr (put data ((Y, X), (sy, sx)) sh)"
  using assms by (simp add: assign_def put_def getitem_def bind_err_def sheet_ok_nth)

lemma fold_err_assign:
  assumes "sheet_ok sh"
    and "\<And>Y X sy sx. ((Y, X), (sy, sx)) \<in> set cs \<Longrightarrow>
           Y < 128 \<and> X < 128 \<and> sy < length data \<and> sx < length (data ! sy)"
  shows "fold_err (assign data) cs sh = Inr (fold (put data) cs sh) \<and> sheet_ok (fold (put data) cs sh)"
  using assms
proof (induction cs arbitrary: sh)
  case Nil
  then show ?case by simp
next
  case (Cons c cs)
  obtain Y X sy sx where c: "c = ((Y, X), (sy, sx))" by (cases c) auto
  have r: "Y < 128 \<and> X < 128 \<and> sy < length data \<and> sx < length (data ! sy)"
    using Cons.prems(2) [of Y X sy sx] c by simp
  have a: "assign data c sh = Inr (put data c sh)"
    unfolding c using Cons.prems(1) r by (simp add: assign_put)
  have ok: "sheet_ok (put data c sh)" using Cons.prems(1) by (rule put_sheet_ok)
  have "fold_err (assign data) cs (put data c sh) = Inr (fold (put data) cs (put data c sh)) \<and>
        sheet_ok (fold (put data) cs (put data c sh))"
    using ok by (rule Cons.IH) (rule Cons.prems(2), simp)
  then show ?case
    using a by (simp add: bind_err_def)
qed

lemma well_formed_nth:
  assumes "well_formed s" "Y < sp_size s"
  shows "Y < length (sp_data s)" "sp_size s \<le> length (sp_data s ! Y)"
proof -
  from assms show "Y < length (sp_data s)" by (simp add: well_formed_def)
  from assms have "Y < length (take (sp_size s) (sp_data s))" by (simp add: well_formed_def)
  moreover from assms have "\<forall>n<length (take (sp_size s) (sp_data s)). sp_size s \<le> length (take (sp_size s) (sp_data s) ! n)"
    unfolding well_formed_def list_all_length by blast
  ultimately have "sp_size s \<le> length (take (sp_size s) (sp_data s) ! Y)" by blast
  then show "sp_size s \<le> length (sp_data s ! Y)" using assms(2) by simp
qed

lemma stamp_ok:
  assumes "fits (i, s)" "well_formed s" "sheet_ok sh"
  shows "fold_err (assign (sp_data s)) (copies_of (i, s)) sh = Inr (stamp (i, s) sh) \<and>
         sheet_ok (stamp (i, s) sh)"
  unfolding stamp_def snd_conv
proof (rule fold_err_assign [OF assms(3)])
  fix Y X sy sx assume "((Y, X), (sy, sx)) \<in> set (copies_of (i, s))"
  moreover from assms(1) have S: "sp_size s = 8 \<or> sp_size s = 16 \<or> sp_size s = 32"
    by (simp add: fits_def)
  ultimately have r: "sy < sp_size s" "sx < sp_size s" and Y: "Y = i div 16 * 8 + sy" and X: "X = i mod 16 * 8 + sx"
    unfolding in_copies_of [OF S] by auto
  from assms(1) have b: "i mod 16 + sp_size s div 8 \<le> 16" "i div 16 + sp_size s div 8 \<le> 16"
    by (simp_all add: fits_def)
  from S obtain F where F: "sp_size s = F * 8"
    by (elim disjE) (rule that [of 1], simp, rule that [of 2], simp, rule that [of 4], simp)
  from b have "i mod 16 * 8 + F * 8 \<le> 128" "i div 16 * 8 + F * 8 \<le> 128"
    unfolding F by simp_all
  with r have "Y < 128" "X < 128" unfolding Y X F by linarith+
  moreover from well_formed_nth [OF assms(2) r(1)] r(2)
  have "sy < length (sp_data s)" "sx < length (sp_data s ! sy)" by simp_all
  ultimately show "Y < 128 \<and> X < 128 \<and> sy < length (sp_data s) \<and> sx < length (sp_data s ! sy)"
    by simp
qed

lemma copies_of_8: "sp_size s = 8 \<Longrightarrow> copies8 (i mod 16 * 8) (i div 16 * 8) = copies_of (i, s)"
  by (simp add: copies_of_def)

lemma copies_of_16: "sp_size s = 16 \<Longrightarrow> copies_chunks 2 (i mod 16 * 8) (i div 16 * 8) = copies_of (i, s)"
  by (simp add: copies_of_def)

lemma copies_of_32: "sp_size s = 32 \<Longrightarrow> copies_chunks 4 (i mod 16 * 8) (i div 16 * 8) = copies_of (i, s)"
  by (simp add: copies_of_def)

lemma pack_loop_stamp:
  assumes "sheet_ok sh" "\<And>s. s \<in> set ss \<Longrightarrow> well_formed s"
  shows "pack_loop ss i sh placed = Inr (fold stamp (placements ss i) sh, placed @ placements ss i)"
  using assms
proof (induction ss arbitrary: i sh placed)
  case Nil
  then show ?case by simp
next
  case (Cons s ss)
  have wf: "well_formed s" using Cons.prems(2) by simp
  have rest: "\<And>t. t \<in> set ss \<Longrightarrow> well_formed t" using Cons.prems(2) by simp
  note IH = Cons.IH [OF _ rest]
  show ?case
  proof (cases "256 \<le> i")
    case True
    then show ?thesis by simp
  next
    case False
    note run = False
    have placed_fits: "fits (i, s)" if "(i, s) \<in> set (placements (s # ss) i)"
      using that by (rule placements_fits)
    consider (a) "sp_size s = 8" | (b) "sp_size s = 16" | (c) "sp_size s = 32"
      | (d) "sp_size s \<noteq> 8" "sp_size s \<noteq> 16" "sp_size s \<noteq> 32" by blast
    then show ?thesis
    proof cases
      case a
      with run have "fits (i, s)" by (intro placed_fits) simp
      from stamp_ok [OF this wf Cons.prems(1)] IH [of "stamp (i, s) sh"] a run
      show ?thesis by (simp add: copies_of_8)
    next
      case b
      show ?thesis
      proof (cases "14 < i mod 16 \<or> 14 < i div 16")
        case True
        with b run IH [OF Cons.prems(1)] show ?thesis by simp
      next
        case False
        with b run have "fits (i, s)" by (intro placed_fits) simp
        from stamp_ok [OF this wf Cons.prems(1)] IH [of "stamp (i, s) sh"] b run False
        show ?thesis by (simp add: copies_of_16)
      qed
    next
      case c
      show ?thesis
      proof (cases "12 < i mod 16 \<or> 12 < i div 16")
        case True
        with c run IH [OF Cons.prems(1)] show ?thesis by simp
      next
        case False
        with c run have "fits (i, s)" by (intro placed_fits) simp
        from stamp_ok [OF this wf Cons.prems(1)] IH [of "stamp (i, s) sh"] c run False
        show ?thesis by (simp add: copies_of_32)
      qed
    next
      case d
      with run IH [OF Cons.prems(1)] show ?thesis by simp
    qed
  qed
qed

lemma pack_stamp:
  assumes "\<And>s. s \<in> set ss \<Longrightarrow> well_formed s"
  shows "pack ss = Inr (fold stamp (placements ss 0) (replicate sheet_size (replicate sheet_size 0)),
                        placements ss 0)"
  unfolding pack_def using pack_loop_stamp [OF sheet_ok_zero assms, of ss 0 "[]"] by simp

lemma solid_well_formed: "well_formed (solid S v)"
  by (simp add: well_formed_def solid_def list_all_length)

lemma sp_size_solid [simp]: "sp_size (solid S v) = S"
  by (simp add: solid_def)

lemma advance16_eq: "advance16 i = (if (i + 2) mod 16 = 0 then i + 18 else i + 2)"
  by (simp add: advance16_def skip_row_def)

lemma advance32_eq: "advance32 i = (if (i + 4) mod 16 = 0 then i + 52 else i + 4)"
proof (cases "(i + 4) mod 16 = 0")
  case True
  then have "(i + 4 + 16) mod 16 = 0" "(i + 4 + 16 + 16) mod 16 = 0" by presburger+
  with True show ?thesis
    unfolding advance32_def skip_row_def grid_size_16 by (simp only: if_True) simp
next
  case False
  then show ?thesis
    unfolding advance32_def skip_row_def grid_size_16 by (simp only: if_False)
qed

lemma pack_well_formed:
  assumes "list_all well_formed ss"
  shows "pack ss = Inr (fold stamp (placements ss 0) (replicate sheet_size (replicate sheet_size 0)),
                        placements ss 0)"
proof (rule pack_stamp)
  fix s assume "s \<in> set ss"
  with assms show "well_formed s" by (simp add: list_all_iff)
qed

text \<open>
  Claim C5.  Whatever the input sequence, a sprite of size 16 or 32 that the packer
  places at cursor \<open>i\<close>, that is at cell \<open>(i mod 16, i div 16)\<close>, with footprint
  \<open>F = size div 8\<close>, satisfies \<open>cellX + F \<le> 16\<close> and \<open>cellY + F \<le> 16\<close>, and the cells it
  writes are exactly the block of \<open>F\<close> by \<open>F\<close> cells that starts there: nothing wraps into
  another row.
\<close>

theorem placed_sprite_inside_grid:
  assumes "pack sprites = Inr (sh, placed)"
    and "(i, s) \<in> set placed"
    and "sp_size s = 16 \<or> sp_size s = 32"
  shows "i mod 16 + sp_size s div 8 \<le> 16 \<and> i div 16 + sp_size s div 8 \<le> 16 \<and>
         dest_cells (i, s) =
           {i mod 16 ..< i mod 16 + sp_size s div 8} \<times> {i div 16 ..< i div 16 + sp_size s div 8}"
proof -
  from assms(1) have "placed = [] @ placements sprites 0"
    unfolding pack_def by (rule pack_loop_placed)
  with assms(2) have "fits (i, s)"
    by (simp add: placements_fits)
  then have "i mod 16 + sp_size s div 8 \<le> 16" "i div 16 + sp_size s div 8 \<le> 16"
    by (simp_all add: fits_def)
  moreover from assms(3) have "dest_cells (i, s) =
      {i mod 16 ..< i mod 16 + sp_size s div 8} \<times> {i div 16 ..< i div 16 + sp_size s div 8}"
    by (intro dest_cells_block) simp
  ultimately show ?thesis by simp
qed

theorem placed_sprite_inside_grid_witness:
  "pack [solid 16 1, solid 32 2]
     = Inr (fold stamp [(0, solid 16 1), (2, solid 32 2)] (replicate sheet_size (replicate sheet_size 0)),
            [(0, solid 16 1), (2, solid 32 2)]) \<and>
   (2::nat) mod 16 + sp_size (solid 32 2) div 8 \<le> 16 \<and>
   (2::nat) div 16 + sp_size (solid 32 2) div 8 \<le> 16 \<and>
   dest_cells (2, solid 32 2) = {2 ..< 6} \<times> {0 ..< 4}"
proof -
  have p: "pack [solid 16 1, solid 32 2]
     = Inr (fold stamp [(0, solid 16 1), (2, solid 32 2)] (replicate sheet_size (replicate sheet_size 0)),
            [(0, solid 16 1), (2, solid 32 2)])"
  proof -
    have wf: "list_all well_formed [solid 16 1, solid 32 2]"
      by (simp add: solid_well_formed)
    have pl: "placements [solid 16 1, solid 32 2] 0 = [(0, solid 16 1), (2, solid 32 2)]"
      by (simp add: advance16_eq)
    show ?thesis
      using pack_well_formed [OF wf] unfolding pl .
  qed
  have m: "(2, solid 32 2) \<in> set [(0, solid 16 1), (2, solid 32 2)]" by simp
  have z: "sp_size (solid 32 2) = 16 \<or> sp_size (solid 32 2) = 32" by simp
  from placed_sprite_inside_grid [OF p m z] p show ?thesis by simp
qed

subsection \<open>The content of the sheet after a placement\<close>

lemma put_nth:
  assumes "sheet_ok sh" "Y < 128" "X < 128"
  shows "put data ((Y', X'), (sy, sx)) sh ! Y ! X
       = (if Y' = Y \<and> X' = X then data ! sy ! sx else sh ! Y ! X)"
proof -
  from assms have len: "length sh = 128" and row: "length (sh ! Y) = 128"
    by (simp_all add: sheet_ok_nth)
  show ?thesis
  proof (cases "Y' = Y")
    case True
    with assms len row show ?thesis
      by (simp add: put_def nth_list_update)
  next
    case False
    then show ?thesis by (simp add: put_def)
  qed
qed

lemma fold_put_sheet_ok: "sheet_ok sh \<Longrightarrow> sheet_ok (fold (put data) cs sh)"
  by (induction cs arbitrary: sh) (simp_all add: put_sheet_ok)

lemma stamp_sheet_ok: "sheet_ok sh \<Longrightarrow> sheet_ok (stamp p sh)"
  unfolding stamp_def by (rule fold_put_sheet_ok)

lemma fold_put_nth:
  assumes "sheet_ok sh" "Y < 128" "X < 128"
    and "\<And>c. c \<in> set cs \<Longrightarrow> snd c = g (fst c)"
  shows "fold (put data) cs sh ! Y ! X
       = (if (Y, X) \<in> fst ` set cs then data ! fst (g (Y, X)) ! snd (g (Y, X)) else sh ! Y ! X)"
  using assms(1,4)
proof (induction cs arbitrary: sh)
  case Nil
  then show ?case by simp
next
  case (Cons c cs)
  obtain Y' X' sy sx where c: "c = ((Y', X'), (sy, sx))" by (cases c) auto
  have src: "(sy, sx) = g (Y', X')" using Cons.prems(2) [of c] c by simp
  have ok: "sheet_ok (put data c sh)" using Cons.prems(1) by (rule put_sheet_ok)
  have IH: "fold (put data) cs (put data c sh) ! Y ! X
       = (if (Y, X) \<in> fst ` set cs then data ! fst (g (Y, X)) ! snd (g (Y, X))
          else put data c sh ! Y ! X)"
    using ok by (rule Cons.IH) (rule Cons.prems(2), simp)
  have here: "put data c sh ! Y ! X = (if Y' = Y \<and> X' = X then data ! sy ! sx else sh ! Y ! X)"
    unfolding c using Cons.prems(1) assms(2,3) by (rule put_nth)
  show ?case
  proof (cases "(Y, X) \<in> fst ` set cs")
    case True
    with IH show ?thesis by simp
  next
    case False
    note notin = False
    show ?thesis
    proof (cases "Y' = Y \<and> X' = X")
      case True
      with src have "data ! sy ! sx = data ! fst (g (Y, X)) ! snd (g (Y, X))"
        by (metis fst_conv snd_conv)
      with True notin IH here show ?thesis by (simp add: c)
    next
      case False
      with notin IH here show ?thesis by (auto simp: c)
    qed
  qed
qed

text \<open>The pixels a placement covers.\<close>

lemma in_fst_copies_of:
  assumes "sp_size s = 8 \<or> sp_size s = 16 \<or> sp_size s = 32"
  shows "(Y, X) \<in> fst ` set (copies_of (i, s)) \<longleftrightarrow>
     i div 16 * 8 \<le> Y \<and> Y < i div 16 * 8 + sp_size s \<and>
     i mod 16 * 8 \<le> X \<and> X < i mod 16 * 8 + sp_size s"
proof
  assume "(Y, X) \<in> fst ` set (copies_of (i, s))"
  then obtain c where c: "c \<in> set (copies_of (i, s))" and f: "(Y, X) = fst c"
    by (rule imageE)
  from c obtain Y' X' where r: "Y' < sp_size s" "X' < sp_size s"
    and cc: "c = ((i div 16 * 8 + Y', i mod 16 * 8 + X'), (Y', X'))"
    unfolding in_copies_of [OF assms] by blast
  from f cc have "Y = i div 16 * 8 + Y'" "X = i mod 16 * 8 + X'" by simp_all
  with r show "i div 16 * 8 \<le> Y \<and> Y < i div 16 * 8 + sp_size s \<and>
     i mod 16 * 8 \<le> X \<and> X < i mod 16 * 8 + sp_size s" by simp
next
  assume a: "i div 16 * 8 \<le> Y \<and> Y < i div 16 * 8 + sp_size s \<and>
     i mod 16 * 8 \<le> X \<and> X < i mod 16 * 8 + sp_size s"
  define Y' X' where "Y' = Y - i div 16 * 8" and "X' = X - i mod 16 * 8"
  from a have r: "Y' < sp_size s" "X' < sp_size s" and e: "Y = i div 16 * 8 + Y'" "X = i mod 16 * 8 + X'"
    unfolding Y'_def X'_def by linarith+
  from r have "((i div 16 * 8 + Y', i mod 16 * 8 + X'), (Y', X')) \<in> set (copies_of (i, s))"
    unfolding in_copies_of [OF assms] by blast
  then have "fst ((i div 16 * 8 + Y', i mod 16 * 8 + X'), (Y', X')) \<in> fst ` set (copies_of (i, s))"
    by (rule imageI)
  then show "(Y, X) \<in> fst ` set (copies_of (i, s))"
    unfolding e by simp
qed

lemma stamp_nth:
  assumes "sp_size s = 8 \<or> sp_size s = 16 \<or> sp_size s = 32"
    and "sheet_ok sh" "Y < 128" "X < 128"
  shows "stamp (i, s) sh ! Y ! X
       = (if i div 16 * 8 \<le> Y \<and> Y < i div 16 * 8 + sp_size s \<and>
             i mod 16 * 8 \<le> X \<and> X < i mod 16 * 8 + sp_size s
          then sp_data s ! (Y - i div 16 * 8) ! (X - i mod 16 * 8)
          else sh ! Y ! X)"
proof -
  have src: "snd c = (\<lambda>(Y, X). (Y - i div 16 * 8, X - i mod 16 * 8)) (fst c)"
    if "c \<in> set (copies_of (i, s))" for c
  proof -
    from that obtain Y' X' where "c = ((i div 16 * 8 + Y', i mod 16 * 8 + X'), (Y', X'))"
      unfolding in_copies_of [OF assms(1)] by blast
    then show ?thesis by simp
  qed
  have "fold (put (sp_data s)) (copies_of (i, s)) sh ! Y ! X
       = (if (Y, X) \<in> fst ` set (copies_of (i, s))
          then sp_data s ! fst ((\<lambda>(Y, X). (Y - i div 16 * 8, X - i mod 16 * 8)) (Y, X))
                         ! snd ((\<lambda>(Y, X). (Y - i div 16 * 8, X - i mod 16 * 8)) (Y, X))
          else sh ! Y ! X)"
    using assms(2,3,4) src by (rule fold_put_nth)
  then show ?thesis
    unfolding stamp_def snd_conv in_fst_copies_of [OF assms(1)] by simp
qed

subsection \<open>A sheet of 8x8 sprites\<close>

lemma placements_8:
  "list_all (\<lambda>s. sp_size s = 8) ss \<Longrightarrow> placements ss i = enumerate i (take (256 - i) ss)"
proof (induction ss arbitrary: i)
  case Nil
  then show ?case by simp
next
  case (Cons s ss)
  show ?case
  proof (cases "256 \<le> i")
    case True
    then show ?thesis by simp
  next
    case False
    then have "256 - i = Suc (256 - (i + 1))" by simp
    then have "take (256 - i) (s # ss) = s # take (256 - (i + 1)) ss"
      by (simp only: take_Suc_Cons)
    with False Cons show ?thesis by simp
  qed
qed

lemma in_cell_row:
  fixes Y a :: nat
  shows "(a * 8 \<le> Y \<and> Y < a * 8 + 8) \<longleftrightarrow> Y div 8 = a"
proof
  assume "a * 8 \<le> Y \<and> Y < a * 8 + 8"
  then have "8 * a \<le> Y" "Y < 8 * Suc a" by simp_all
  then show "Y div 8 = a" by (rule div_nat_eqI)
next
  assume a: "Y div 8 = a"
  have "Y = Y div 8 * 8 + Y mod 8" by simp
  moreover have "Y mod 8 < 8" by simp
  ultimately show "a * 8 \<le> Y \<and> Y < a * 8 + 8"
    unfolding a by linarith
qed

lemma pixel_in_cell:
  fixes Y X n :: nat
  assumes "Y < 128" "X < 128"
  shows "(n div 16 * 8 \<le> Y \<and> Y < n div 16 * 8 + 8 \<and> n mod 16 * 8 \<le> X \<and> X < n mod 16 * 8 + 8)
         \<longleftrightarrow> n = Y div 8 * 16 + X div 8"
proof -
  from assms(2) have x: "X div 8 < 16" by simp
  have "(n div 16 * 8 \<le> Y \<and> Y < n div 16 * 8 + 8 \<and> n mod 16 * 8 \<le> X \<and> X < n mod 16 * 8 + 8)
        \<longleftrightarrow> Y div 8 = n div 16 \<and> X div 8 = n mod 16"
    using in_cell_row [of "n div 16" Y] in_cell_row [of "n mod 16" X] by blast
  also have "\<dots> \<longleftrightarrow> n = Y div 8 * 16 + X div 8"
  proof
    assume "Y div 8 = n div 16 \<and> X div 8 = n mod 16"
    then have "Y div 8 * 16 + X div 8 = n div 16 * 16 + n mod 16" by simp
    then show "n = Y div 8 * 16 + X div 8" by simp
  next
    assume "n = Y div 8 * 16 + X div 8"
    with x show "Y div 8 = n div 16 \<and> X div 8 = n mod 16" by simp
  qed
  finally show ?thesis .
qed

lemma pixel_offset:
  fixes Y X n :: nat
  assumes "X < 128" "n = Y div 8 * 16 + X div 8"
  shows "Y - n div 16 * 8 = Y mod 8" "X - n mod 16 * 8 = X mod 8"
proof -
  from assms(1) have x: "X div 8 < 16" by simp
  with assms(2) have d: "n div 16 = Y div 8" and m: "n mod 16 = X div 8" by simp_all
  show "Y - n div 16 * 8 = Y mod 8" unfolding d by (simp add: minus_div_mult_eq_mod)
  show "X - n mod 16 * 8 = X mod 8" unfolding m by (simp add: minus_div_mult_eq_mod)
qed

lemma fold_stamp_tiles:
  assumes "sheet_ok sh" "Y < 128" "X < 128"
  shows "list_all (\<lambda>s. sp_size s = 8) xs \<Longrightarrow>
     fold stamp (enumerate 0 xs) sh ! Y ! X
       = (if Y div 8 * 16 + X div 8 < length xs
          then sp_data (xs ! (Y div 8 * 16 + X div 8)) ! (Y mod 8) ! (X mod 8)
          else sh ! Y ! X)"
proof (induction xs rule: rev_induct)
  case Nil
  then show ?case by simp
next
  case (snoc s xs)
  from snoc.prems have s8: "sp_size s = 8" and xs8: "list_all (\<lambda>s. sp_size s = 8) xs"
    by simp_all
  note IH = snoc.IH [OF xs8]
  have ok: "sheet_ok (fold stamp (enumerate 0 xs) sh)"
    using assms(1) by (induction xs rule: rev_induct) (simp_all add: enumerate_append_eq stamp_sheet_ok)
  have S: "sp_size s = 8 \<or> sp_size s = 16 \<or> sp_size s = 32" using s8 by simp
  have st: "stamp (length xs, s) (fold stamp (enumerate 0 xs) sh) ! Y ! X
       = (if length xs = Y div 8 * 16 + X div 8
          then sp_data s ! (Y - length xs div 16 * 8) ! (X - length xs mod 16 * 8)
          else fold stamp (enumerate 0 xs) sh ! Y ! X)"
    unfolding stamp_nth [OF S ok assms(2,3)] s8 pixel_in_cell [OF assms(2,3)] ..
  show ?case
  proof (cases "length xs = Y div 8 * 16 + X div 8")
    case True
    from st have "stamp (length xs, s) (fold stamp (enumerate 0 xs) sh) ! Y ! X
        = sp_data s ! (Y - length xs div 16 * 8) ! (X - length xs mod 16 * 8)"
      by (simp only: True [symmetric] if_True refl)
    then have v: "stamp (length xs, s) (fold stamp (enumerate 0 xs) sh) ! Y ! X
        = sp_data s ! (Y mod 8) ! (X mod 8)"
      unfolding pixel_offset [OF assms(3) True] .
    have "(xs @ [s]) ! (Y div 8 * 16 + X div 8) = s"
      unfolding True [symmetric] by (rule nth_append_length)
    moreover have "Y div 8 * 16 + X div 8 < length (xs @ [s])"
      unfolding True [symmetric] by simp
    ultimately show ?thesis
      using v by (simp add: enumerate_append_eq)
  next
    case False
    with st IH show ?thesis
      by (auto simp: enumerate_append_eq nth_append)
  qed
qed

text \<open>
  Claim C4.  For a sequence of 8x8 sprites (each with at least 8 rows of 8 entries), the
  run returns; the placements are the first 256 sprites in input order, sprite number
  \<open>k\<close> at cursor \<open>k\<close>, one per cell; the result, sheet and placements, is the one for the
  first 256 sprites alone, so a sprite beyond them alters nothing; the cell of sprite \<open>k\<close>
  holds its data, and the cells beyond the last sprite hold 0.
\<close>

theorem pack_8x8_capacity:
  assumes "list_all (\<lambda>s. sp_size s = 8 \<and> well_formed s) sprites"
  shows "\<exists>sh. pack sprites = Inr (sh, enumerate 0 (take 256 sprites)) \<and>
              pack (take 256 sprites) = Inr (sh, enumerate 0 (take 256 sprites)) \<and>
              (\<forall>k<min 256 (length sprites).
                 dest_cells (k, sprites ! k) = {(k mod 16, k div 16)} \<and>
                 (\<forall>y<8. \<forall>x<8.
                    sh ! (k div 16 * 8 + y) ! (k mod 16 * 8 + x) = sp_data (sprites ! k) ! y ! x)) \<and>
              (\<forall>Y<128. \<forall>X<128. length sprites \<le> Y div 8 * 16 + X div 8 \<longrightarrow> sh ! Y ! X = 0)"
proof -
  let ?zero = "replicate sheet_size (replicate sheet_size (0::nat))"
  let ?xs = "take 256 sprites"
  let ?sh = "fold stamp (enumerate 0 ?xs) ?zero"
  from assms have wf: "list_all well_formed sprites" and s8: "list_all (\<lambda>s. sp_size s = 8) sprites"
    by (simp_all add: list_all_iff)
  have wf': "list_all well_formed ?xs" and s8': "list_all (\<lambda>s. sp_size s = 8) ?xs"
    using wf s8 by (auto simp: list_all_iff dest: in_set_takeD)
  have p1: "pack sprites = Inr (?sh, enumerate 0 ?xs)"
    using pack_well_formed [OF wf] placements_8 [OF s8, of 0] by simp
  have p2: "pack ?xs = Inr (?sh, enumerate 0 ?xs)"
    using pack_well_formed [OF wf'] placements_8 [OF s8', of 0] by simp
  have px: "?sh ! Y ! X = (if Y div 8 * 16 + X div 8 < length ?xs
          then sp_data (?xs ! (Y div 8 * 16 + X div 8)) ! (Y mod 8) ! (X mod 8)
          else ?zero ! Y ! X)" if "Y < 128" "X < 128" for Y X
    using sheet_ok_zero that s8' by (rule fold_stamp_tiles)
  have cells: "dest_cells (k, sprites ! k) = {(k mod 16, k div 16)} \<and>
         (\<forall>y<8. \<forall>x<8. ?sh ! (k div 16 * 8 + y) ! (k mod 16 * 8 + x) = sp_data (sprites ! k) ! y ! x)"
    if k: "k < min 256 (length sprites)" for k
  proof
    from k have "sprites ! k \<in> set sprites" by simp
    with s8 have k8: "sp_size (sprites ! k) = 8" by (simp add: list_all_iff)
    then show "dest_cells (k, sprites ! k) = {(k mod 16, k div 16)}"
      by (subst dest_cells_block) auto
    show "\<forall>y<8. \<forall>x<8. ?sh ! (k div 16 * 8 + y) ! (k mod 16 * 8 + x) = sp_data (sprites ! k) ! y ! x"
    proof (intro allI impI)
      fix y x :: nat assume y: "y < 8" and x: "x < 8"
      from k have "k div 16 < 16" by (simp add: less_mult_imp_div_less)
      with y have Y: "k div 16 * 8 + y < 128" by linarith
      have "k mod 16 < 16" by simp
      with x have X: "k mod 16 * 8 + x < 128" by linarith
      have c: "(k div 16 * 8 + y) div 8 * 16 + (k mod 16 * 8 + x) div 8 = k"
        using y x by simp
      have o: "(k div 16 * 8 + y) mod 8 = y" "(k mod 16 * 8 + x) mod 8 = x"
        using y x by simp_all
      from px [OF Y X] k show "?sh ! (k div 16 * 8 + y) ! (k mod 16 * 8 + x) = sp_data (sprites ! k) ! y ! x"
        unfolding c o by simp
    qed
  qed
  have rest: "?sh ! Y ! X = 0" if "Y < 128" "X < 128" "length sprites \<le> Y div 8 * 16 + X div 8" for Y X
    using px [OF that(1,2)] that by (simp add: sheet_size_def)
  from p1 p2 cells rest show ?thesis by blast
qed

lemma length_tiles: "length (tiles n) = n"
  by (simp add: tiles_def)

lemma take_tiles: "m \<le> n \<Longrightarrow> take m (tiles n) = tiles m"
  by (simp add: tiles_def take_map)

lemma nth_tiles: "k < n \<Longrightarrow> tiles n ! k = tile k"
  by (simp add: tiles_def)

lemma tiles_ok: "list_all (\<lambda>s. sp_size s = 8 \<and> well_formed s) (tiles n)"
  by (simp add: tiles_def list_all_iff tile_def well_formed_def)

theorem pack_8x8_capacity_witness:
  "\<exists>sh. pack (tiles 257) = Inr (sh, enumerate 0 (tiles 256)) \<and>
         pack (tiles 256) = Inr (sh, enumerate 0 (tiles 256)) \<and>
         sh ! 0 ! 0 = 1 \<and> sh ! 8 ! 8 = 3 \<and> sh ! 127 ! 127 = 1"
proof -
  have t: "take 256 (tiles 257) = tiles 256" by (rule take_tiles) simp
  have m: "min 256 (length (tiles 257)) = 256" by (simp add: length_tiles)
  from pack_8x8_capacity [OF tiles_ok, of 257] obtain sh where
    p1: "pack (tiles 257) = Inr (sh, enumerate 0 (tiles 256))"
    and p2: "pack (tiles 256) = Inr (sh, enumerate 0 (tiles 256))"
    and px: "\<forall>k<256. dest_cells (k, tiles 257 ! k) = {(k mod 16, k div 16)} \<and>
                 (\<forall>y<8. \<forall>x<8.
                    sh ! (k div 16 * 8 + y) ! (k mod 16 * 8 + x) = sp_data (tiles 257 ! k) ! y ! x)"
    unfolding t m by blast
  have v: "sh ! (k div 16 * 8 + y) ! (k mod 16 * 8 + x) = k mod 15 + 1"
    if "k < 256" "y < 8" "x < 8" for k y x
  proof -
    from px that have "sh ! (k div 16 * 8 + y) ! (k mod 16 * 8 + x) = sp_data (tiles 257 ! k) ! y ! x"
      by blast
    also have "tiles 257 ! k = tile k" using that(1) by (intro nth_tiles) simp
    finally show ?thesis using that by (simp add: tile_def)
  qed
  from v [of 0 0 0] v [of 17 0 0] v [of 255 7 7] p1 p2 show ?thesis by simp
qed

subsection \<open>The cursor after a multi-cell sprite\<close>

lemma row_end:
  fixes i F :: nat
  assumes "i mod 16 + F \<le> 16" "0 < F" "(i + F) mod 16 = 0"
  shows "i + F = (i div 16 + 1) * 16"
proof -
  have "(i mod 16 + F) mod 16 = 0"
    using assms(3) by (simp add: mod_add_left_eq)
  then have "16 dvd i mod 16 + F" by (simp add: dvd_eq_mod_eq_0)
  then obtain k where k: "i mod 16 + F = 16 * k" by (rule dvdE)
  with assms(1,2) have "k = 1" by (cases k; cases "k - 1") simp_all
  with k have e: "i mod 16 + F = 16" by simp
  have "i + F = i div 16 * 16 + (i mod 16 + F)" by simp
  also have "\<dots> = (i div 16 + 1) * 16" unfolding e by simp
  finally show ?thesis .
qed

lemma fits_less: "fits (i, s) \<Longrightarrow> i < 256"
proof -
  assume "fits (i, s)"
  then have "i div 16 < 16" by (auto simp: fits_def)
  moreover have "i mod 16 < 16" by simp
  moreover have "i = i div 16 * 16 + i mod 16" by simp
  ultimately show ?thesis by linarith
qed

lemma advance16_row:
  assumes "i mod 16 + 2 \<le> 16"
  shows "advance16 i = (if (i + 2) mod 16 = 0 then (i div 16 + 2) * 16 else i + 2)"
proof (cases "(i + 2) mod 16 = 0")
  case True
  from row_end [OF assms _ True] True show ?thesis by (simp add: advance16_eq)
next
  case False
  then show ?thesis by (simp add: advance16_eq)
qed

lemma advance32_row:
  assumes "i mod 16 + 4 \<le> 16"
  shows "advance32 i = (if (i + 4) mod 16 = 0 then (i div 16 + 4) * 16 else i + 4)"
proof (cases "(i + 4) mod 16 = 0")
  case True
  from row_end [OF assms _ True] True show ?thesis by (simp add: advance32_eq)
next
  case False
  then show ?thesis by (simp add: advance32_eq)
qed

text \<open>
  Claim C2, as amended.  After the packer places a sprite of footprint \<open>F = size div 8 > 1\<close>
  at cursor \<open>i\<close>, it goes on with the cursor \<open>i + F\<close>, in the same row of cells, unless
  \<open>i + F\<close> is the end of the row: only then does the next sprite begin at the start of the
  row \<open>F\<close> rows below the top row of the placed sprite.  The sheet then holds the sprite
  and the placement is recorded.
\<close>

theorem pack_loop_advance:
  assumes "sp_size s = 16 \<or> sp_size s = 32"
    and "fits (i, s)" "well_formed s" "sheet_ok sh"
  shows "pack_loop (s # rest) i sh placed
       = pack_loop rest
           (if (i + sp_size s div 8) mod 16 = 0 then (i div 16 + sp_size s div 8) * 16
            else i + sp_size s div 8)
           (stamp (i, s) sh) (placed @ [(i, s)])"
proof -
  from assms(2) have run: "\<not> 256 \<le> i" using fits_less [of i s] by simp
  note st = stamp_ok [OF assms(2,3,4), THEN conjunct1]
  from assms(1) show ?thesis
  proof
    assume S: "sp_size s = 16"
    with assms(2) have f: "i mod 16 + 2 \<le> 16" "i div 16 + 2 \<le> 16" by (simp_all add: fits_def)
    then have "\<not> (14 < i mod 16 \<or> 14 < i div 16)" by linarith
    with S run st show ?thesis
      by (simp add: copies_of_16 advance16_row [OF f(1)])
  next
    assume S: "sp_size s = 32"
    with assms(2) have f: "i mod 16 + 4 \<le> 16" "i div 16 + 4 \<le> 16" by (simp_all add: fits_def)
    then have "\<not> (12 < i mod 16 \<or> 12 < i div 16)" by linarith
    with S run st show ?thesis
      by (simp add: copies_of_32 advance32_row [OF f(1)])
  qed
qed

lemma dest_cells_solid_32: "dest_cells (0, solid 32 v) = {0..<4} \<times> {0..<4}"
  by (subst dest_cells_block) simp_all

lemma dest_cells_solid_8: "dest_cells (4, solid 8 v) = {(4, 0)}"
  by (subst dest_cells_block) auto

theorem pack_loop_advance_witness:
  "pack [solid 32 1, solid 8 2]
     = Inr (fold stamp [(0, solid 32 1), (4, solid 8 2)] (replicate sheet_size (replicate sheet_size 0)),
            [(0, solid 32 1), (4, solid 8 2)]) \<and>
   dest_cells (0, solid 32 1) = {0..<4} \<times> {0..<4} \<and>
   dest_cells (4, solid 8 2) = {(4, 0)}"
proof -
  let ?zero = "replicate sheet_size (replicate sheet_size (0::nat))"
  have S: "sp_size (solid 32 1) = 16 \<or> sp_size (solid 32 1) = 32" by simp
  have f: "fits (0, solid 32 1)" by (simp add: fits_def)
  have "pack_loop (solid 32 1 # [solid 8 2]) 0 ?zero []
      = pack_loop [solid 8 2] 4 (stamp (0, solid 32 1) ?zero) ([] @ [(0, solid 32 1)])"
    using pack_loop_advance [OF S f solid_well_formed sheet_ok_zero, of "[solid 8 2]" "[]"] by simp
  also have "\<dots> = Inr (fold stamp (placements [solid 8 2] 4) (stamp (0, solid 32 1) ?zero),
                       ([] @ [(0, solid 32 1)]) @ placements [solid 8 2] 4)"
    by (rule pack_loop_stamp) (simp_all add: stamp_sheet_ok sheet_ok_zero solid_well_formed)
  finally have "pack [solid 32 1, solid 8 2]
     = Inr (fold stamp [(0, solid 32 1), (4, solid 8 2)] ?zero, [(0, solid 32 1), (4, solid 8 2)])"
    by (simp add: pack_def)
  then show ?thesis
    using dest_cells_solid_32 [of 1] dest_cells_solid_8 [of 2] by simp
qed

text \<open>
  Claim C2 as stated fails: packing a 32x32 sprite and then an 8x8 sprite, the 8x8 sprite
  goes to cell \<open>(4, 0)\<close>, to the right of the 32x32 sprite, and cell \<open>(0, 4)\<close> stays empty.
  The pixel in row 0 and column 32 belongs to cell \<open>(4, 0)\<close>, the pixel in row 32 and
  column 0 to cell \<open>(0, 4)\<close>.
\<close>

theorem small_after_large_counterexample:
  "sprites_to_pico8_format [solid 32 1, solid 8 2] 32
     = Inr (fold stamp [(0, solid 32 1), (4, solid 8 2)] (replicate sheet_size (replicate sheet_size 0))) \<and>
   fold stamp [(0, solid 32 1), (4, solid 8 2)] (replicate sheet_size (replicate sheet_size 0)) ! 0 ! 32 = 2 \<and>
   fold stamp [(0, solid 32 1), (4, solid 8 2)] (replicate sheet_size (replicate sheet_size 0)) ! 32 ! 0 = 0"
proof -
  let ?zero = "replicate sheet_size (replicate sheet_size (0::nat))"
  have wf: "list_all well_formed [solid 32 1, solid 8 2]"
    by (simp add: solid_well_formed)
  have pl: "placements [solid 32 1, solid 8 2] 0 = [(0, solid 32 1), (4, solid 8 2)]"
    by (simp add: advance32_eq)
  have p: "sprites_to_pico8_format [solid 32 1, solid 8 2] 32
     = Inr (fold stamp [(0, solid 32 1), (4, solid 8 2)] ?zero)"
    using pack_well_formed [OF wf] unfolding pl by (simp add: sprites_to_pico8_format_def)
  have ok: "sheet_ok (stamp (0, solid 32 1) ?zero)"
    by (simp add: stamp_sheet_ok sheet_ok_zero)
  have a: "stamp (4, solid 8 2) (stamp (0, solid 32 1) ?zero) ! 0 ! 32 = 2"
    by (subst stamp_nth [OF _ ok]) (simp_all add: solid_def)
  have "stamp (4, solid 8 2) (stamp (0, solid 32 1) ?zero) ! 32 ! 0 = stamp (0, solid 32 1) ?zero ! 32 ! 0"
    by (subst stamp_nth [OF _ ok]) simp_all
  also have "\<dots> = ?zero ! 32 ! 0"
    by (subst stamp_nth [OF _ sheet_ok_zero]) simp_all
  also have "\<dots> = 0" by (simp add: sheet_size_def)
  finally have b: "stamp (4, solid 8 2) (stamp (0, solid 32 1) ?zero) ! 32 ! 0 = 0" .
  from p a b show ?thesis by simp
qed

subsection \<open>Sprites of one size do not overlap\<close>

lemma next_cursor_aligned:
  assumes "aligned F i" "i mod 16 + F \<le> 16" "0 < F"
  shows "i < next_cursor F i \<and> aligned F (next_cursor F i)"
proof (cases "(i + F) mod 16 = 0")
  case True
  then have n: "next_cursor F i = (i div 16 + F) * 16" by (simp add: next_cursor_def)
  have "i = i div 16 * 16 + i mod 16" by simp
  moreover have "i mod 16 < 16" by simp
  ultimately have "i < i div 16 * 16 + 16" by linarith
  also have "\<dots> \<le> i div 16 * 16 + F * 16" using assms(3) by simp
  also have "\<dots> = (i div 16 + F) * 16" by (simp add: add_mult_distrib)
  finally have "i < next_cursor F i" unfolding n .
  moreover have "aligned F ((i div 16 + F) * 16)"
    using assms(1) by (simp add: aligned_def)
  ultimately show ?thesis unfolding n by simp
next
  case False
  then have n: "next_cursor F i = i + F" by (simp add: next_cursor_def)
  have "(i mod 16 + F) mod 16 \<noteq> 0"
    using False by (simp add: mod_add_left_eq)
  then have "i mod 16 + F \<noteq> 16" by auto
  with assms(2) have lt: "i mod 16 + F < 16" by simp
  have e: "i + F = i div 16 * 16 + (i mod 16 + F)" by simp
  have "(i + F) mod 16 = (i mod 16 + F) mod 16" by (simp add: mod_add_left_eq)
  also have "\<dots> = i mod 16 + F" using lt by simp
  finally have m: "(i + F) mod 16 = i mod 16 + F" .
  have i: "i = i div 16 * 16 + i mod 16" by simp
  have "16 * (i div 16) \<le> i + F" using i by linarith
  moreover have "16 * Suc (i div 16) = i div 16 * 16 + 16" by simp
  then have "i + F < 16 * Suc (i div 16)" using i lt by linarith
  ultimately have d: "(i + F) div 16 = i div 16" by (rule div_nat_eqI)
  have "aligned F (i + F)"
    using assms(1) unfolding aligned_def m d by simp
  with assms(3) show ?thesis unfolding n by simp
qed

lemma next_cursor_8: "i + 1 = next_cursor 1 i"
proof (cases "(i + 1) mod 16 = 0")
  case True
  have "i mod 16 + 1 \<le> 16" using mod_less_divisor [of 16 i] by simp
  from row_end [OF this _ True] True show ?thesis by (simp add: next_cursor_def)
next
  case False
  then show ?thesis by (simp add: next_cursor_def)
qed

lemma next_cursor_Suc: "next_cursor (Suc 0) i = Suc i"
  using next_cursor_8 [of i] by simp

lemma next_cursor_16: "i mod 16 + 2 \<le> 16 \<Longrightarrow> advance16 i = next_cursor 2 i"
  by (simp add: advance16_row next_cursor_def)

lemma next_cursor_32: "i mod 16 + 4 \<le> 16 \<Longrightarrow> advance32 i = next_cursor 4 i"
  by (simp add: advance32_row next_cursor_def)

lemma placements_uniform:
  assumes "0 < F" "list_all (\<lambda>s. sp_size s = F * 8) ss" "F = 1 \<or> F = 2 \<or> F = 4"
  shows "aligned F i \<Longrightarrow>
     sorted_wrt (<) (map fst (placements ss i)) \<and>
     (\<forall>p\<in>set (placements ss i). i \<le> fst p \<and> aligned F (fst p) \<and> sp_size (snd p) = F * 8)"
  using assms(2)
proof (induction ss arbitrary: i)
  case Nil
  then show ?case by simp
next
  case (Cons s ss)
  from Cons.prems have al: "aligned F i" and sz: "sp_size s = F * 8"
    and rest: "list_all (\<lambda>s. sp_size s = F * 8) ss" by simp_all
  note IH = Cons.IH [OF _ rest]
  have placed: "sorted_wrt (<) (map fst ((i, s) # placements ss (next_cursor F i))) \<and>
     (\<forall>p\<in>set ((i, s) # placements ss (next_cursor F i)).
        i \<le> fst p \<and> aligned F (fst p) \<and> sp_size (snd p) = F * 8)"
    if fit: "i mod 16 + F \<le> 16"
  proof -
    from next_cursor_aligned [OF al fit assms(1)]
    have gt: "i < next_cursor F i" and al': "aligned F (next_cursor F i)" by simp_all
    from IH [OF al'] have s: "sorted_wrt (<) (map fst (placements ss (next_cursor F i)))"
      and r: "\<forall>p\<in>set (placements ss (next_cursor F i)).
                next_cursor F i \<le> fst p \<and> aligned F (fst p) \<and> sp_size (snd p) = F * 8"
      by simp_all
    from r gt have "\<forall>p\<in>set (placements ss (next_cursor F i)). i < fst p" by auto
    moreover from r gt have "\<forall>p\<in>set (placements ss (next_cursor F i)).
        i \<le> fst p \<and> aligned F (fst p) \<and> sp_size (snd p) = F * 8" by auto
    ultimately show ?thesis using s al sz by simp
  qed
  show ?case
  proof (cases "256 \<le> i")
    case True
    then show ?thesis by simp
  next
    case False
    note run = False
    from assms(3) show ?thesis
    proof (elim disjE)
      assume F: "F = 1"
      have "i mod 16 + F \<le> 16" unfolding F using mod_less_divisor [of 16 i] by simp
      from placed [OF this] run sz show ?thesis
        unfolding F by (simp add: next_cursor_Suc)
    next
      assume F: "F = 2"
      show ?thesis
      proof (cases "14 < i mod 16 \<or> 14 < i div 16")
        case True
        with run sz F IH [OF al] show ?thesis by simp
      next
        case False
        then have fit: "i mod 16 + F \<le> 16" unfolding F by simp
        from placed [OF fit] run sz False fit show ?thesis
          unfolding F by (simp add: next_cursor_16)
      qed
    next
      assume F: "F = 4"
      show ?thesis
      proof (cases "12 < i mod 16 \<or> 12 < i div 16")
        case True
        with run sz F IH [OF al] show ?thesis by simp
      next
        case False
        then have fit: "i mod 16 + F \<le> 16" unfolding F by simp
        from placed [OF fit] run sz False fit show ?thesis
          unfolding F by (simp add: next_cursor_32)
      qed
    qed
  qed
qed

lemma aligned_block_div:
  assumes "0 < F" "F dvd a" "a \<le> x" "x < a + F"
  shows "x div F * F = (a::nat)"
proof -
  from assms(2) obtain k where k: "a = F * k" by (rule dvdE)
  from assms(3,4) have "F * k \<le> x" "x < F * Suc k" unfolding k by simp_all
  then have "x div F = k" by (rule div_nat_eqI)
  then show ?thesis unfolding k by simp
qed

lemma aligned_blocks_disjoint:
  assumes "0 < F" "aligned F c1" "aligned F c2" "c1 \<noteq> c2"
  shows "({c1 mod 16 ..< c1 mod 16 + F} \<times> {c1 div 16 ..< c1 div 16 + F}) \<inter>
         ({c2 mod 16 ..< c2 mod 16 + F} \<times> {c2 div 16 ..< c2 div 16 + F}) = {}"
proof (rule ccontr)
  assume "({c1 mod 16 ..< c1 mod 16 + F} \<times> {c1 div 16 ..< c1 div 16 + F}) \<inter>
         ({c2 mod 16 ..< c2 mod 16 + F} \<times> {c2 div 16 ..< c2 div 16 + F}) \<noteq> {}"
  then obtain x y where
    x1: "c1 mod 16 \<le> x" "x < c1 mod 16 + F" and y1: "c1 div 16 \<le> y" "y < c1 div 16 + F" and
    x2: "c2 mod 16 \<le> x" "x < c2 mod 16 + F" and y2: "c2 div 16 \<le> y" "y < c2 div 16 + F"
    by auto
  from assms(2,3) have d: "F dvd c1 mod 16" "F dvd c1 div 16" "F dvd c2 mod 16" "F dvd c2 div 16"
    by (simp_all add: aligned_def)
  have "c1 mod 16 = x div F * F" using aligned_block_div [OF assms(1) d(1) x1] by simp
  also have "\<dots> = c2 mod 16" using aligned_block_div [OF assms(1) d(3) x2] by simp
  finally have m: "c1 mod 16 = c2 mod 16" .
  have "c1 div 16 = y div F * F" using aligned_block_div [OF assms(1) d(2) y1] by simp
  also have "\<dots> = c2 div 16" using aligned_block_div [OF assms(1) d(4) y2] by simp
  finally have "c1 div 16 = c2 div 16" .
  with m have "c1 div 16 * 16 + c1 mod 16 = c2 div 16 * 16 + c2 mod 16" by simp
  then have "c1 = c2" by simp
  with assms(4) show False by contradiction
qed

lemma uniform_no_overlap:
  assumes "S = 8 \<or> S = 16 \<or> S = 32"
    and "list_all (\<lambda>s. sp_size s = S \<and> well_formed s) sprites"
  shows "\<exists>sh placed. pack sprites = Inr (sh, placed) \<and>
           (\<forall>i<length placed. \<forall>j<length placed. i \<noteq> j \<longrightarrow>
              dest_cells (placed ! i) \<inter> dest_cells (placed ! j) = {})"
proof -
  let ?ps = "placements sprites 0"
  define F where "F = S div 8"
  from assms(1) have F: "S = F * 8" "0 < F" "F = 1 \<or> F = 2 \<or> F = 4"
    unfolding F_def by auto
  from assms(2) have wf: "list_all well_formed sprites" and sz: "list_all (\<lambda>s. sp_size s = F * 8) sprites"
    unfolding F(1) by (simp_all add: list_all_iff)
  have p: "pack sprites = Inr (fold stamp ?ps (replicate sheet_size (replicate sheet_size 0)), ?ps)"
    using wf by (rule pack_well_formed)
  have "aligned F 0" by (simp add: aligned_def)
  from placements_uniform [OF F(2) sz F(3) this]
  have srt: "sorted_wrt (<) (map fst ?ps)"
    and inv: "\<forall>p\<in>set ?ps. 0 \<le> fst p \<and> aligned F (fst p) \<and> sp_size (snd p) = F * 8"
    by simp_all
  have cells: "dest_cells (?ps ! k) =
      {fst (?ps ! k) mod 16 ..< fst (?ps ! k) mod 16 + F} \<times> {fst (?ps ! k) div 16 ..< fst (?ps ! k) div 16 + F}"
    and al: "aligned F (fst (?ps ! k))" if "k < length ?ps" for k
  proof -
    from that have m: "?ps ! k \<in> set ?ps" by simp
    with inv have a: "aligned F (fst (?ps ! k))" and s: "sp_size (snd (?ps ! k)) = F * 8" by simp_all
    from a show "aligned F (fst (?ps ! k))" .
    from s F(3) have S: "sp_size (snd (?ps ! k)) = 8 \<or> sp_size (snd (?ps ! k)) = 16 \<or> sp_size (snd (?ps ! k)) = 32"
      by auto
    from s have d: "sp_size (snd (?ps ! k)) div 8 = F" by simp
    from dest_cells_block [OF S, of "fst (?ps ! k)"] show "dest_cells (?ps ! k) =
      {fst (?ps ! k) mod 16 ..< fst (?ps ! k) mod 16 + F} \<times> {fst (?ps ! k) div 16 ..< fst (?ps ! k) div 16 + F}"
      unfolding d by simp
  qed
  have less: "fst (?ps ! i) < fst (?ps ! j)" if "i < j" "j < length ?ps" for i j
  proof -
    from srt that have "map fst ?ps ! i < map fst ?ps ! j"
      by (intro sorted_wrt_nth_less) simp_all
    with that show ?thesis by simp
  qed
  have "dest_cells (?ps ! i) \<inter> dest_cells (?ps ! j) = {}"
    if "i < length ?ps" "j < length ?ps" "i \<noteq> j" for i j
  proof -
    from that(3) have "i < j \<or> j < i" by linarith
    with less [of i j] less [of j i] that(1,2) have ne: "fst (?ps ! i) \<noteq> fst (?ps ! j)"
      by auto
    show ?thesis
      unfolding cells [OF that(1)] cells [OF that(2)]
      using F(2) al [OF that(1)] al [OF that(2)] ne by (rule aligned_blocks_disjoint)
  qed
  with p show ?thesis by blast
qed

subsection \<open>The quadrants of the split producer\<close>

lemma part_writes_col: "w \<in> set (part_writes sprite_id hex) \<Longrightarrow> snd (fst w) = sprite_id mod 16"
  by (auto simp: part_writes_def Let_def)

lemma part_writes_in_range:
  "w \<in> set (part_writes sprite_id hex) \<Longrightarrow> fst (fst w) < 128 \<and> snd (fst w) < 16"
  by (auto simp: part_writes_def Let_def)

lemma sprite_writes_col:
  assumes "w \<in> set (sprite_writes sprite)" "ss_index sprite < 8"
  shows "snd (fst w) div 2 = ss_index sprite"
proof -
  let ?N = "ss_index sprite"
  from assms(1) have "snd (fst w) = (?N * 2) mod 16 \<or> snd (fst w) = (?N * 2 + 1) mod 16
      \<or> snd (fst w) = (?N * 2 + 16) mod 16 \<or> snd (fst w) = (?N * 2 + 17) mod 16"
    unfolding sprite_writes_def Let_def set_append Un_iff
    by (elim disjE) (simp_all only: part_writes_col simp_thms)
  moreover have "(?N * 2 + 16) mod 16 = (?N * 2) mod 16" by simp
  moreover have "(?N * 2 + 17) mod 16 = (?N * 2 + 1) mod 16"
  proof -
    have "?N * 2 + 17 = (?N * 2 + 1) + 16" by simp
    then show ?thesis by (simp only: mod_add_self2)
  qed
  moreover have "(?N * 2) mod 16 = ?N * 2" "(?N * 2 + 1) mod 16 = ?N * 2 + 1"
    using assms(2) by simp_all
  ultimately have "snd (fst w) = ?N * 2 \<or> snd (fst w) = ?N * 2 + 1"
    by (elim disjE) simp_all
  then show ?thesis by auto
qed

lemma gfx_cells_disjoint:
  assumes "ss_index a < 8" "ss_index b < 8" "ss_index a \<noteq> ss_index b"
  shows "gfx_dest_cells a \<inter> gfx_dest_cells b = {}"
proof (rule ccontr)
  assume "gfx_dest_cells a \<inter> gfx_dest_cells b \<noteq> {}"
  then obtain c where "c \<in> gfx_dest_cells a" "c \<in> gfx_dest_cells b" by blast
  then obtain wa wb where wa: "wa \<in> set (sprite_writes a)" "c = (snd (fst wa), fst (fst wa) div 8)"
    and wb: "wb \<in> set (sprite_writes b)" "c = (snd (fst wb), fst (fst wb) div 8)"
    unfolding gfx_dest_cells_def by blast
  from wa(2) wb(2) have "snd (fst wa) = snd (fst wb)" by simp
  with sprite_writes_col [OF wa(1) assms(1)] sprite_writes_col [OF wb(1) assms(2)]
  have "ss_index a = ss_index b" by simp
  with assms(3) show False by contradiction
qed

text \<open>
  Claim C1, as amended.  For every sequence of well-formed sprites that all have the same
  size, 8, 16 or 32, the multi-size packer returns, and no two of its placements write
  to the same 8x8 cell of the sheet.  In the split producer, which places the quadrants
  of sprite \<open>N\<close> at the slots \<open>2N\<close>, \<open>2N+1\<close>, \<open>2N+16\<close> and \<open>2N+17\<close>, two sprites with
  different indices below 8 write to different cells.
\<close>

theorem no_overlap_one_size:
  "((S = 8 \<or> S = 16 \<or> S = 32) \<and> list_all (\<lambda>s. sp_size s = S \<and> well_formed s) sprites \<longrightarrow>
      (\<exists>sh placed. pack sprites = Inr (sh, placed) \<and>
         (\<forall>i<length placed. \<forall>j<length placed. i \<noteq> j \<longrightarrow>
            dest_cells (placed ! i) \<inter> dest_cells (placed ! j) = {}))) \<and>
   (ss_index a < 8 \<and> ss_index b < 8 \<and> ss_index a \<noteq> ss_index b \<longrightarrow>
      gfx_dest_cells a \<inter> gfx_dest_cells b = {})"
proof (intro conjI impI)
  assume "(S = 8 \<or> S = 16 \<or> S = 32) \<and> list_all (\<lambda>s. sp_size s = S \<and> well_formed s) sprites"
  then have "S = 8 \<or> S = 16 \<or> S = 32" "list_all (\<lambda>s. sp_size s = S \<and> well_formed s) sprites"
    by simp_all
  then show "\<exists>sh placed. pack sprites = Inr (sh, placed) \<and>
         (\<forall>i<length placed. \<forall>j<length placed. i \<noteq> j \<longrightarrow>
            dest_cells (placed ! i) \<inter> dest_cells (placed ! j) = {})"
    by (rule uniform_no_overlap)
next
  assume "ss_index a < 8 \<and> ss_index b < 8 \<and> ss_index a \<noteq> ss_index b"
  then have "ss_index a < 8" "ss_index b < 8" "ss_index a \<noteq> ss_index b" by simp_all
  then show "gfx_dest_cells a \<inter> gfx_dest_cells b = {}" by (rule gfx_cells_disjoint)
qed

lemma gfx_cell_quad_0: "(0, 0) \<in> gfx_dest_cells (quad 0 1)"
  by code_simp

lemma gfx_cell_quad_1: "(2, 0) \<in> gfx_dest_cells (quad 1 2)"
  by code_simp

theorem no_overlap_one_size_witness:
  "(\<exists>sh. pack [solid 32 1, solid 32 2, solid 32 3, solid 32 4, solid 32 5]
           = Inr (sh, [(0, solid 32 1), (4, solid 32 2), (8, solid 32 3), (12, solid 32 4),
                       (64, solid 32 5)])) \<and>
   dest_cells (0, solid 32 1) \<inter> dest_cells (64, solid 32 5) = {} \<and>
   dest_cells (0, solid 32 1) = {0..<4} \<times> {0..<4} \<and>
   dest_cells (64, solid 32 5) = {0..<4} \<times> {4..<8} \<and>
   gfx_dest_cells (quad 0 1) \<inter> gfx_dest_cells (quad 1 2) = {} \<and>
   (0, 0) \<in> gfx_dest_cells (quad 0 1) \<and> (2, 0) \<in> gfx_dest_cells (quad 1 2)"
proof -
  let ?L = "[solid 32 1, solid 32 2, solid 32 3, solid 32 4, solid 32 5]"
  let ?P = "[(0, solid 32 1), (4, solid 32 2), (8, solid 32 3), (12, solid 32 4), (64::nat, solid 32 5)]"
  have pre: "((32::nat) = 8 \<or> (32::nat) = 16 \<or> (32::nat) = 32) \<and>
      list_all (\<lambda>s. sp_size s = 32 \<and> well_formed s) ?L"
    by (simp add: solid_well_formed)
  have q: "ss_index (quad 0 1) < 8 \<and> ss_index (quad 1 2) < 8 \<and> ss_index (quad 0 1) \<noteq> ss_index (quad 1 2)"
    by (simp add: quad_def)
  note t = no_overlap_one_size [of 32 ?L "quad 0 1" "quad 1 2"]
  from t [THEN conjunct1, rule_format, OF pre] obtain sh placed where
    p: "pack ?L = Inr (sh, placed)"
    and d: "\<forall>i<length placed. \<forall>j<length placed. i \<noteq> j \<longrightarrow>
              dest_cells (placed ! i) \<inter> dest_cells (placed ! j) = {}"
    by blast
  have wf: "list_all well_formed ?L" by (simp add: solid_well_formed)
  have pl: "placements ?L 0 = ?P" by (simp add: advance32_eq)
  from pack_well_formed [OF wf] p have placed: "placed = ?P" unfolding pl by simp
  have "dest_cells (?P ! 0) \<inter> dest_cells (?P ! 4) = {}"
    using d [rule_format, of 0 4] unfolding placed by simp
  then have a: "dest_cells (0, solid 32 1) \<inter> dest_cells (64, solid 32 5) = {}" by simp
  have b: "dest_cells (0, solid 32 1) = {0..<4} \<times> {0..<4}"
    by (subst dest_cells_block) simp_all
  have c: "dest_cells (64, solid 32 5) = {0..<4} \<times> {4..<8}"
    by (subst dest_cells_block) simp_all
  have g: "gfx_dest_cells (quad 0 1) \<inter> gfx_dest_cells (quad 1 2) = {}"
    using t [THEN conjunct2, rule_format, OF q] .
  from p placed have "\<exists>sh. pack ?L = Inr (sh, ?P)" by blast
  with a b c g gfx_cell_quad_0 gfx_cell_quad_1 show ?thesis by (intro conjI)
qed

text \<open>
  Claim C1 as stated fails for sprites of mixed sizes.  After three 32x32 sprites and two
  16x16 sprites in the first row of cells the cursor is 32, the start of the third row,
  and the next 16x16 sprite is placed over the first 32x32 sprite: both write to cell
  \<open>(0, 2)\<close>, and the pixel in row 16 and column 0 ends with the colour of the later one.
\<close>

theorem mixed_sizes_overlap_counterexample:
  "pack [solid 32 1, solid 32 2, solid 32 3, solid 16 4, solid 16 5, solid 16 6]
     = Inr (fold stamp [(0, solid 32 1), (4, solid 32 2), (8, solid 32 3), (12, solid 16 4),
                        (14, solid 16 5), (32, solid 16 6)]
              (replicate sheet_size (replicate sheet_size 0)),
            [(0, solid 32 1), (4, solid 32 2), (8, solid 32 3), (12, solid 16 4),
             (14, solid 16 5), (32, solid 16 6)]) \<and>
   (0, 2) \<in> dest_cells (0, solid 32 1) \<and>
   (0, 2) \<in> dest_cells (32, solid 16 6) \<and>
   fold stamp [(0, solid 32 1), (4, solid 32 2), (8, solid 32 3), (12, solid 16 4),
               (14, solid 16 5), (32, solid 16 6)]
     (replicate sheet_size (replicate sheet_size 0)) ! 16 ! 0 = 6"
proof -
  let ?zero = "replicate sheet_size (replicate sheet_size (0::nat))"
  let ?L = "[solid 32 1, solid 32 2, solid 32 3, solid 16 4, solid 16 5, solid 16 6]"
  let ?P = "[(0, solid 32 1), (4, solid 32 2), (8, solid 32 3), (12, solid 16 4),
             (14, solid 16 5), (32::nat, solid 16 6)]"
  have wf: "list_all well_formed ?L" by (simp add: solid_well_formed)
  have pl: "placements ?L 0 = ?P" by (simp add: advance32_eq advance16_eq)
  have p: "pack ?L = Inr (fold stamp ?P ?zero, ?P)"
    using pack_well_formed [OF wf] unfolding pl .
  have a: "(0, 2) \<in> dest_cells (0, solid 32 1)"
    by (subst dest_cells_block) simp_all
  have b: "(0, 2) \<in> dest_cells (32, solid 16 6)"
    by (subst dest_cells_block) simp_all
  let ?below = "fold stamp [(0, solid 32 1), (4, solid 32 2), (8, solid 32 3), (12, solid 16 4),
                            (14::nat, solid 16 5)] ?zero"
  have ok: "sheet_ok ?below"
    by (simp add: stamp_sheet_ok sheet_ok_zero)
  have "stamp (32, solid 16 6) ?below ! 16 ! 0 = 6"
    by (subst stamp_nth [OF _ ok]) (simp_all add: solid_def)
  then have c: "fold stamp ?P ?zero ! 16 ! 0 = 6" by simp
  from p a b c show ?thesis by (intro conjI)
qed

text \<open>
  The split producer with nine or more sprites is left out of the amended claim: sprite
  8 gets the slots 16, 17, 32 and 33, of which 16 and 17 are the lower slots of sprite
  0, so both write to cell \<open>(0, 1)\<close>.
\<close>

lemma gfx_overlap_sprite_8:
  "(0, 1) \<in> gfx_dest_cells (quad 0 1) \<and> (0, 1) \<in> gfx_dest_cells (quad 8 2)"
  by code_simp

section \<open>Properties of the whole run\<close>

lemma extract_red16: "extract_sprites_from_png red16 16 = [solid 16 8]"
proof -
  have d: "cell_data red16 16 0 0 = replicate 16 (replicate 16 8)"
    unfolding cell_data_def red16_def
    by (simp add: rgb_to_pico8_color_red map_replicate_const del: upt_rec_numeral)
  have g: "height red16 div 16 = 1" "width red16 div 16 = 1" by (simp_all add: red16_def)
  have "extract_body red16 16
      = Inr (map (\<lambda>(k, yx). cell_sprite red16 16 k yx)
               (enumerate 0 (List.product [0..<height red16 div 16] [0..<width red16 div 16])))"
    by (rule extract_body_Inr) simp
  then have "extract_body red16 16 = Inr [cell_sprite red16 16 0 (0, 0)]"
    unfolding g by simp
  then show ?thesis
    by (simp add: extract_sprites_from_png_def cell_sprite_def d solid_def)
qed

lemma sheet_eqI:
  assumes "sheet_ok A" "sheet_ok B" "\<And>Y X. Y < 128 \<Longrightarrow> X < 128 \<Longrightarrow> A ! Y ! X = B ! Y ! X"
  shows "A = B"
proof (rule nth_equalityI)
  from assms(1,2) show "length A = length B" by (simp add: sheet_ok_nth)
next
  fix Y assume "Y < length A"
  with assms(1) have Y: "Y < 128" by (simp add: sheet_ok_nth)
  show "A ! Y = B ! Y"
  proof (rule nth_equalityI)
    from assms(1,2) Y show "length (A ! Y) = length (B ! Y)" by (simp add: sheet_ok_nth)
  next
    fix X assume "X < length (A ! Y)"
    with assms(1) Y have "X < 128" by (simp add: sheet_ok_nth)
    with Y show "A ! Y ! X = B ! Y ! X" by (rule assms(3))
  qed
qed

lemma red_sheet_ok: "sheet_ok red_sheet"
  by (simp add: sheet_ok_def red_sheet_def list_all_iff)

lemma red_sheet_nth:
  assumes "Y < 128" "X < 128"
  shows "red_sheet ! Y ! X = (if Y < 16 \<and> X < 16 then 8 else 0)"
  using assms by (simp add: red_sheet_def nth_append)

lemma pack_red16: "pack [solid 16 8] = Inr (red_sheet, [(0, solid 16 8)])"
proof -
  let ?zero = "replicate sheet_size (replicate sheet_size (0::nat))"
  have wf: "list_all well_formed [solid 16 8]" by (simp add: solid_well_formed)
  have p: "pack [solid 16 8] = Inr (stamp (0, solid 16 8) ?zero, [(0, solid 16 8)])"
    using pack_well_formed [OF wf] by (simp add: advance16_eq)
  have "stamp (0, solid 16 8) ?zero = red_sheet"
  proof (rule sheet_eqI)
    show "sheet_ok (stamp (0, solid 16 8) ?zero)" by (simp add: stamp_sheet_ok sheet_ok_zero)
    show "sheet_ok red_sheet" by (rule red_sheet_ok)
    fix Y X :: nat assume r: "Y < 128" "X < 128"
    have "stamp (0, solid 16 8) ?zero ! Y ! X = (if Y < 16 \<and> X < 16 then 8 else 0)"
      using r by (subst stamp_nth [OF _ sheet_ok_zero]) (simp_all add: solid_def sheet_size_def)
    then show "stamp (0, solid 16 8) ?zero ! Y ! X = red_sheet ! Y ! X"
      using red_sheet_nth [OF r] by simp
  qed
  with p show ?thesis by simp
qed

lemma concat_hex_replicate: "v < 16 \<Longrightarrow> concat (replicate n (hex_str v)) = replicate n (hex_digit v)"
  by (induction n) (simp_all add: hex_str_digit)

lemma gfx_lines_red_sheet:
  "gfx_lines red_sheet
     = Inr (replicate 16 (replicate 16 CHR ''8'' @ replicate 112 CHR ''0'')
            @ replicate 112 (replicate 128 CHR ''0''))"
proof -
  have len: "length red_sheet = 128" by (simp add: red_sheet_def)
  have rows: "\<forall>row\<in>set red_sheet. length row = 128 \<and> (\<forall>v\<in>set row. v < 16)"
    by (auto simp: red_sheet_def)
  have "map_err (gfx_line red_sheet) [0..<128]
      = Inr (map (\<lambda>y. concat (map hex_str (red_sheet ! y))) [0..<128])"
    using len rows by (rule gfx_lines_rows)
  moreover have "map (\<lambda>y. concat (map hex_str (red_sheet ! y))) [0..<length red_sheet]
      = map (\<lambda>row. concat (map hex_str row)) red_sheet"
    by (rule nth_equalityI) simp_all
  moreover have "map (\<lambda>row. concat (map hex_str row)) red_sheet
      = replicate 16 (replicate 16 CHR ''8'' @ replicate 112 CHR ''0'')
        @ replicate 112 (replicate 128 CHR ''0'')"
    by (simp add: red_sheet_def concat_hex_replicate hex_digit_def)
  ultimately show ?thesis
    unfolding gfx_lines_def len by (simp only:)
qed

lemma cell_blank_red_sheet:
  assumes "cx < 16" "cy < 16"
  shows "cell_blank red_sheet (cx, cy) \<longleftrightarrow> \<not> (cx < 2 \<and> cy < 2)"
proof -
  have px: "red_sheet ! (cy * 8 + y) ! (cx * 8 + x) = (if cy < 2 \<and> cx < 2 then 8 else 0)"
    if "y < 8" "x < 8" for y x
  proof -
    from assms that have r: "cy * 8 + y < 128" "cx * 8 + x < 128" by linarith+
    from that have "cy * 8 + y < 16 \<longleftrightarrow> cy < 2" "cx * 8 + x < 16 \<longleftrightarrow> cx < 2" by linarith+
    with red_sheet_nth [OF r] show ?thesis by simp
  qed
  have blank: "cell_blank red_sheet (cx, cy) \<longleftrightarrow>
      (\<forall>y\<in>{0..<8}. \<forall>x\<in>{0..<8}. red_sheet ! (cy * 8 + y) ! (cx * 8 + x) = 0)"
    unfolding cell_blank_def list_all_iff set_upt by simp
  show ?thesis
  proof (cases "cx < 2 \<and> cy < 2")
    case True
    with px [of 0 0] have nz: "red_sheet ! (cy * 8 + 0) ! (cx * 8 + 0) \<noteq> 0" by simp
    have z: "(0::nat) \<in> {0..<8}" by simp
    have "\<not> cell_blank red_sheet (cx, cy)"
    proof
      assume "cell_blank red_sheet (cx, cy)"
      then have "\<forall>y\<in>{0..<8}. \<forall>x\<in>{0..<8}. red_sheet ! (cy * 8 + y) ! (cx * 8 + x) = 0"
        unfolding blank .
      from this z have "\<forall>x\<in>{0..<8}. red_sheet ! (cy * 8 + 0) ! (cx * 8 + x) = 0" by (rule bspec)
      from this z have "red_sheet ! (cy * 8 + 0) ! (cx * 8 + 0) = 0" by (rule bspec)
      with nz show False by contradiction
    qed
    with True show ?thesis by simp
  next
    case False
    with px have "\<forall>y\<in>{0..<8}. \<forall>x\<in>{0..<8}. red_sheet ! (cy * 8 + y) ! (cx * 8 + x) = 0"
      by auto
    with False show ?thesis unfolding blank by simp
  qed
qed

lemma count_outside_block:
  "length (filter (\<lambda>(cx, cy). \<not> (cx < 2 \<and> cy < 2)) (List.product [0..<16] [0..<16])) = (252::nat)"
  by code_simp

lemma blank_cells_red_sheet: "length (blank_cells red_sheet) = 252"
proof -
  have "filter (cell_blank red_sheet) (List.product [0..<16] [0..<16])
      = filter (\<lambda>(cx, cy). \<not> (cx < 2 \<and> cy < 2)) (List.product [0..<16] [0..<16])"
  proof (rule filter_cong [OF refl])
    fix c assume "c \<in> set (List.product [0..<16] [0..<16])"
    then obtain cx cy where c: "c = (cx, cy)" and r: "cx < 16" "cy < 16"
      unfolding set_product set_upt by auto
    show "cell_blank red_sheet c = (case c of (cx, cy) \<Rightarrow> \<not> (cx < 2 \<and> cy < 2))"
      unfolding c using cell_blank_red_sheet [OF r] by simp
  qed
  then show ?thesis
    unfolding blank_cells_def using count_outside_block by (simp only:)
qed

lemma sheet_red16: "sprites_to_pico8_format (extract_sprites_from_png red16 16) 16 = Inr red_sheet"
  by (simp add: sprites_to_pico8_format_def extract_red16 pack_red16)

text \<open>
  Claim C3, as amended.  The whole run on the solid 16x16 image of palette colour 8, with
  cell size 16, writes after the header 16 lines that begin with 16 digits \<open>8\<close> followed
  by 112 digits \<open>0\<close>, and then 112 lines of 128 digits \<open>0\<close>; the sheet holds colour 8 in
  the block of 2 by 2 cells at cell \<open>(0, 0)\<close>, and its remaining 252 cells are all 0.
\<close>

theorem main_p8_red16:
  "main_p8 red16 16
     = Inr (Some ([''-- PICO-8 Sprite Data'', ''-- Generated by sprite_extractor.py'', '''', ''__gfx__'']
                  @ replicate 16 (replicate 16 CHR ''8'' @ replicate 112 CHR ''0'')
                  @ replicate 112 (replicate 128 CHR ''0''))) \<and>
   sprites_to_pico8_format (extract_sprites_from_png red16 16) 16 = Inr red_sheet \<and>
   length (blank_cells red_sheet) = 252"
proof -
  have "save_pico8_sprite_data red_sheet
     = Inr ([''-- PICO-8 Sprite Data'', ''-- Generated by sprite_extractor.py'', '''', ''__gfx__'']
            @ replicate 16 (replicate 16 CHR ''8'' @ replicate 112 CHR ''0'')
            @ replicate 112 (replicate 128 CHR ''0''))"
    unfolding save_pico8_sprite_data_def gfx_lines_red_sheet bind_err_def by simp
  then have "main_p8 red16 16
     = Inr (Some ([''-- PICO-8 Sprite Data'', ''-- Generated by sprite_extractor.py'', '''', ''__gfx__'']
                  @ replicate 16 (replicate 16 CHR ''8'' @ replicate 112 CHR ''0'')
                  @ replicate 112 (replicate 128 CHR ''0'')))"
    using sheet_red16 by (simp add: main_p8_def extract_red16 bind_err_def)
  with sheet_red16 blank_cells_red_sheet show ?thesis by (intro conjI)
qed

text \<open>
  Claim C3 as stated fails in its count: of the 256 cells of the sheet of that run, 252
  are all 0, not 240.
\<close>

theorem red16_blank_cells_counterexample:
  "sprites_to_pico8_format (extract_sprites_from_png red16 16) 16 = Inr red_sheet \<and>
   length (List.product [0..<16] [0..<16] :: (nat \<times> nat) list) = 256 \<and>
   length (blank_cells red_sheet) = 252 \<and>
   length (blank_cells red_sheet) \<noteq> 240"
proof -
  have "length (List.product [0..<16] [0..<16] :: (nat \<times> nat) list) = 256"
    by (simp only: length_product length_upt) simp
  with sheet_red16 blank_cells_red_sheet show ?thesis by simp
qed

section \<open>Properties of the 16x16 converter\<close>

lemma find_closest_pico8_color_red: "find_closest_pico8_color [255, 0, 77, 255] = 8"
  by (simp add: find_closest_pico8_color_def closest_loop_def PICO8_PALETTE_def distance_def
      enumerate_eq_zip Let_def upt_rec)

lemma quantize_grid:
  assumes "width img = 16" "height img = 16"
  shows "map_err (\<lambda>y.
            map_err (\<lambda>x. bind_err (getpixel img (x, y)) (\<lambda>pixel. Inr (find_closest_pico8_color pixel)))
              [0..<16])
          [0..<16]
       = Inr (map (\<lambda>y. map (\<lambda>x. find_closest_pico8_color (pixel_at img x y)) [0..<16]) [0..<16])"
proof (rule map_err_Inr)
  fix y assume "y \<in> set [0..<16]"
  then have y: "y < 16" unfolding set_upt by simp
  show "map_err (\<lambda>x. bind_err (getpixel img (x, y)) (\<lambda>pixel. Inr (find_closest_pico8_color pixel))) [0..<16]
      = Inr (map (\<lambda>x. find_closest_pico8_color (pixel_at img x y)) [0..<16])"
  proof (rule map_err_Inr)
    fix x assume "x \<in> set [0..<16]"
    then have "x < 16" unfolding set_upt by simp
    with y assms show "bind_err (getpixel img (x, y)) (\<lambda>pixel. Inr (find_closest_pico8_color pixel))
        = Inr (find_closest_pico8_color (pixel_at img x y))"
      by (simp add: getpixel_def bind_err_def)
  qed
qed

lemma nth_map_upt_16: "k < 16 \<Longrightarrow> map f [0..<16] ! k = f k"
proof -
  assume k: "k < 16"
  have "map f [0..<n] ! k = f k" if "k < n" for n
    using that by simp
  from this [OF k] show ?thesis .
qed

lemma length_map_upt_16: "length (map f [0..<16]) = 16"
proof -
  have "length (map f [0..<n]) = n" for n by simp
  then show ?thesis .
qed

text \<open>
  Claim C10, as amended.  Provided the library's resize returns an image of the size it
  is asked for, the converter rejects no image for its size: for an image that is not
  16x16 it prints a warning, resizes the image to 16x16 with the filter \<open>NEAREST\<close> and
  quantizes the result, so it returns a grid of 16 rows of 16 palette indices for an
  image of any size.
\<close>

theorem convert_png_to_pico8_any_size:
  assumes "width (resize img (16, 16) NEAREST) = 16 \<and> height (resize img (16, 16) NEAREST) = 16"
  shows "\<exists>grid. convert_png_to_pico8 resize img
              = (if (width img, height img) = (16, 16) then []
                 else [Warning_resizing (width img, height img)], Some grid) \<and>
           length grid = 16 \<and>
           (\<forall>y<16. length (grid ! y) = 16 \<and>
              (\<forall>x<16. grid ! y ! x < 16 \<and>
                 grid ! y ! x = find_closest_pico8_color
                   (pixel_at (if (width img, height img) = (16, 16) then img
                              else resize img (16, 16) NEAREST) x y)))"
proof -
  define im where "im = (if (width img, height img) = (16, 16) then img else resize img (16, 16) NEAREST)"
  define printed where "printed = (if (width img, height img) = (16, 16) then []
                 else [Warning_resizing (width img, height img)])"
  define grid where "grid = map (\<lambda>y. map (\<lambda>x. find_closest_pico8_color (pixel_at im x y)) [0..<16]) [0..<16]"
  have size: "width im = 16" "height im = 16"
    using assms by (auto simp: im_def)
  have im': "(if (width img, height img) \<noteq> (16, 16)
             then ([Warning_resizing (width img, height img)], resize img (16, 16) NEAREST)
             else ([], img)) = (printed, im)"
    by (simp add: im_def printed_def)
  have "convert_png_to_pico8 resize img = (printed, Some grid)"
    unfolding convert_png_to_pico8_def im' Let_def prod.case quantize_grid [OF size] grid_def by simp
  moreover have "length grid = 16"
    unfolding grid_def by (rule length_map_upt_16)
  moreover have "\<forall>y<16. length (grid ! y) = 16 \<and>
      (\<forall>x<16. grid ! y ! x < 16 \<and> grid ! y ! x = find_closest_pico8_color (pixel_at im x y))"
  proof (intro allI impI)
    fix y :: nat assume y: "y < 16"
    have row: "grid ! y = map (\<lambda>x. find_closest_pico8_color (pixel_at im x y)) [0..<16]"
      unfolding grid_def using y by (rule nth_map_upt_16)
    have "length (grid ! y) = 16"
      unfolding row by (rule length_map_upt_16)
    moreover have "\<forall>x<16. grid ! y ! x < 16 \<and> grid ! y ! x = find_closest_pico8_color (pixel_at im x y)"
      unfolding row by (simp add: nth_map_upt_16 find_closest_pico8_color_less)
    ultimately show "length (grid ! y) = 16 \<and>
      (\<forall>x<16. grid ! y ! x < 16 \<and> grid ! y ! x = find_closest_pico8_color (pixel_at im x y))" ..
  qed
  ultimately show ?thesis unfolding im_def printed_def by blast
qed

theorem convert_png_to_pico8_any_size_witness:
  "\<exists>grid. convert_png_to_pico8 sample_resize wide_image = ([Warning_resizing (32, 8)], Some grid) \<and>
      length grid = 16 \<and> length (grid ! 3) = 16 \<and> grid ! 3 ! 0 = 8 \<and> grid ! 3 ! 15 = 0"
proof -
  have a: "width (sample_resize wide_image (16, 16) NEAREST) = 16 \<and>
           height (sample_resize wide_image (16, 16) NEAREST) = 16"
    by (simp add: sample_resize_def)
  have ne: "(width wide_image, height wide_image) \<noteq> (16, 16)"
    by (simp add: wide_image_def)
  from convert_png_to_pico8_any_size [of sample_resize wide_image, OF a] obtain grid where
    g: "convert_png_to_pico8 sample_resize wide_image
          = (if (width wide_image, height wide_image) = (16, 16) then []
             else [Warning_resizing (width wide_image, height wide_image)], Some grid)"
       "length grid = 16"
    and px: "\<forall>y<16. length (grid ! y) = 16 \<and>
              (\<forall>x<16. grid ! y ! x < 16 \<and>
                 grid ! y ! x = find_closest_pico8_color
                   (pixel_at (if (width wide_image, height wide_image) = (16, 16) then wide_image
                              else sample_resize wide_image (16, 16) NEAREST) x y))"
    by blast
  from g(1) have g1: "convert_png_to_pico8 sample_resize wide_image = ([Warning_resizing (32, 8)], Some grid)"
    by (simp add: wide_image_def)
  have p3: "(3::nat) < 16" "(0::nat) < 16" "(15::nat) < 16" by simp_all
  note row = px [rule_format, OF p3(1)]
  have "length (grid ! 3) = 16" using row by (rule conjunct1)
  moreover have "grid ! 3 ! 0 = 8"
    using row [THEN conjunct2, rule_format, OF p3(2), THEN conjunct2] ne
    by (simp add: sample_resize_def wide_image_def find_closest_pico8_color_red)
  moreover have "grid ! 3 ! 15 = 0"
    using row [THEN conjunct2, rule_format, OF p3(3), THEN conjunct2] ne
    by (simp add: sample_resize_def wide_image_def find_closest_pico8_color_def)
  ultimately show ?thesis using g1 g(2) by blast
qed

text \<open>
  Claim C10 as stated fails in one word: the resize is not silent.  For the image of 32
  by 8 pixels the converter prints the warning before it returns the grid.
\<close>

theorem convert_png_to_pico8_warning_counterexample:
  "fst (convert_png_to_pico8 sample_resize wide_image) = [Warning_resizing (32, 8)] \<and>
   fst (convert_png_to_pico8 sample_resize wide_image) \<noteq> []"
proof -
  have size: "width (sample_resize wide_image (16, 16) NEAREST) = 16"
    "height (sample_resize wide_image (16, 16) NEAREST) = 16"
    by (simp_all add: sample_resize_def)
  have "convert_png_to_pico8 sample_resize wide_image
      = ([Warning_resizing (32, 8)],
         Some (map (\<lambda>y. map (\<lambda>x. find_closest_pico8_color
                 (pixel_at (sample_resize wide_image (16, 16) NEAREST) x y)) [0..<16]) [0..<16]))"
    unfolding convert_png_to_pico8_def Let_def
    by (simp add: wide_image_def [THEN arg_cong, of width] wide_image_def [THEN arg_cong, of height]
        quantize_grid [OF size] del: upt_rec_numeral)
  then show ?thesis by simp
qed

end
